theory Spec2Isabelle
  imports Complex_Main "HOL-Library.Word" "HOL-Library.Multiset"
begin

unbundle bit_operations_syntax

section \<open>Java-Go concurrency benchmarks: a model of the two harnesses\<close>

text \<open>
  The repository benchmarks one image-preprocessing task in two languages. The Go
  programs (\<^verbatim>\<open>go/cifar-10/main.go\<close>, \<^verbatim>\<open>go/tinyimagenet/main.go\<close> and their earlier
  variants) cut the loaded images into batches of \<^verbatim>\<open>batchSize\<close> and start one goroutine
  per batch, joined by a \<^verbatim>\<open>sync.WaitGroup\<close>. The Java programs
  (\<^verbatim>\<open>com.example.cifar.ImageProcessor\<close>, \<^verbatim>\<open>com.example.tinyimagenet.ImageProcessor\<close>)
  run one producer thread that puts batches on a bounded \<^verbatim>\<open>LinkedBlockingQueue\<close> and a
  fixed pool of consumers that poll it.

  Conventions of the model.
  \<^item> In the model of the runs a \<^verbatim>\<open>float32\<close> (Go) or \<^verbatim>\<open>float\<close> (Java) is the real
    number it stands for. The transform is also given on IEEE 754 binary32 values, where
    doubling overflows to an infinity at magnitude \<open>2 ^ 127\<close>; below that magnitude it
    is exact and the two models agree. The pixel values the loaders produce lie in
    \<open>[0, 1]\<close>, so the 100 runs of the harness stay below \<open>2 ^ 100\<close>; rounding in the
    loader's division by 255 is not modelled.
  \<^item> A pixel array lives in a heap, at an address; the dataset is the list of the
    addresses of its images. Two entries of the dataset alias when they hold the same
    address.
  \<^item> Threads and goroutines take atomic steps; a schedule is the list of the steps'
    owners, chosen by the environment. Every theorem about a concurrent run holds for
    all schedules.
\<close>

type_synonym float32 = real
type_synonym addr = nat

subsection \<open>The transform\<close>

text \<open>
  Go, \<^verbatim>\<open>SimulateImageProcessing\<close>:
  \<^verbatim>\<open>for i := range image { image[i] = image[i] * 2 }; return image\<close>.
  The loop visits the indices \<open>0 .. len(image) - 1\<close> in order and overwrites each
  element.
\<close>

definition SimulateImageProcessing :: "float32 list \<Rightarrow> float32 list" where
  "SimulateImageProcessing v = fold (\<lambda>i img. img[i := img ! i * 2]) [0..<length v] v"

text \<open>
  Java CIFAR, \<^verbatim>\<open>processBatch(float[][] batch)\<close>: for every image of the batch, for every
  index, \<^verbatim>\<open>image[i] *= 2\<close>.
\<close>

definition processBatch :: "float32 list list \<Rightarrow> float32 list list" where
  "processBatch batch =
     map (\<lambda>v. fold (\<lambda>i img. img[i := img ! i * 2]) [0..<length v] v) batch"

text \<open>
  Java Tiny ImageNet, \<^verbatim>\<open>processImage(BufferedImage image)\<close>. The body of the two loops
  reads a packed pixel with \<^verbatim>\<open>getRGB\<close>, takes the three channels apart, doubles each
  one under \<^verbatim>\<open>Math.min(c * 2, 255)\<close> and writes the repacked value with \<^verbatim>\<open>setRGB\<close>.
  Java's \<^verbatim>\<open>int\<close> is modelled by \<open>int\<close>: \<^verbatim>\<open>>>\<close> is \<open>drop_bit\<close> (on \<open>int\<close> it is
  the arithmetic shift), \<^verbatim>\<open>&\<close>, \<^verbatim>\<open>|\<close> and \<^verbatim>\<open><<\<close> are \<open>AND\<close>, \<open>OR\<close> and
  \<open>push_bit\<close>. Every intermediate value is below \<open>2 ^ 24\<close>, so nothing wraps.
  An image is the matrix of its packed pixels, row by row.
\<close>

definition processPixel :: "int \<Rightarrow> int" where
  "processPixel rgb =
     (let r = (drop_bit 16 rgb) AND 0xFF;
          g = (drop_bit 8 rgb) AND 0xFF;
          b = rgb AND 0xFF;
          r = min (r * 2) 255;
          g = min (g * 2) 255;
          b = min (b * 2) 255
      in (push_bit 16 r) OR (push_bit 8 g) OR b)"

definition processImage :: "int list list \<Rightarrow> int list list" where
  "processImage img = map (map processPixel) img"

text \<open>The channels of a packed pixel, as \<^verbatim>\<open>processImage\<close> and its test read them.\<close>

definition red :: "int \<Rightarrow> int" where
  "red rgb = (drop_bit 16 rgb) AND 0xFF"

definition green :: "int \<Rightarrow> int" where
  "green rgb = (drop_bit 8 rgb) AND 0xFF"

definition blue :: "int \<Rightarrow> int" where
  "blue rgb = rgb AND 0xFF"

subsection \<open>The transform on IEEE 754 values\<close>

text \<open>
  Go's \<^verbatim>\<open>float32\<close> and Java's \<^verbatim>\<open>float\<close> hold IEEE 754 binary32 values: a sign bit, an
  exponent field of 8 bits and a fraction field of 23 bits. An exponent field of 255
  encodes the infinities (fraction 0) and the NaNs; an exponent field of 0 encodes the
  zeros and the subnormal numbers.
\<close>

record binary32 =
  b_sign :: bool
  b_exp :: "8 word"
  b_frac :: "23 word"

text \<open>
  The product \<^verbatim>\<open>image[i] * 2\<close>, rounded to nearest as both languages do. The constant 2
  is a binary32 value, and the exact product of a finite value and 2 is a binary32 value
  unless it is too large, so that nothing is rounded: a normal number has its exponent
  field incremented; a subnormal number has its fraction shifted left by one bit, the
  bit shifted out becoming the exponent field 1; a number with the largest finite
  exponent field, 254, overflows to the infinity of its sign; an infinity is returned as
  it is, and a NaN is returned with its quiet bit set.
\<close>

definition float32_mul2 :: "binary32 \<Rightarrow> binary32" where
  "float32_mul2 x =
     (if b_exp x = 255 then (if b_frac x = 0 then x else x\<lparr>b_frac := b_frac x OR 0x400000\<rparr>)
      else if b_exp x = 254 then x\<lparr>b_exp := 255, b_frac := 0\<rparr>
      else if b_exp x = 0
        then x\<lparr>b_exp := (if b_frac x < 0x400000 then 0 else 1), b_frac := b_frac x * 2\<rparr>
      else x\<lparr>b_exp := b_exp x + 1\<rparr>)"

definition is_infinity :: "binary32 \<Rightarrow> bool" where
  "is_infinity x \<longleftrightarrow> b_exp x = 255 \<and> b_frac x = 0"

text \<open>
  The number a finite binary32 value stands for: its magnitude is
  \<open>fraction * 2 ^ (- 149)\<close> for a subnormal number and
  \<open>(2 ^ 23 + fraction) * 2 ^ (exponent - 150)\<close> for a normal one. The magnitude is kept
  as a natural number, scaled by \<open>2 ^ 150\<close>. For an infinity or a NaN the formula gives
  a number of magnitude \<open>2 ^ 128\<close> or more, which stands for nothing.
\<close>

definition magnitude :: "binary32 \<Rightarrow> nat" where
  "magnitude x =
     (if b_exp x = 0 then unat (b_frac x) * 2
      else (2 ^ 23 + unat (b_frac x)) * 2 ^ unat (b_exp x))"

definition valof :: "binary32 \<Rightarrow> real" where
  "valof x = (if b_sign x then - 1 else 1) * real (magnitude x) / 2 ^ 150"

text \<open>
  \<^verbatim>\<open>SimulateImageProcessing\<close> and \<^verbatim>\<open>processBatch\<close> on binary32 values: the same loops,
  with the product of the machine.
\<close>

definition SimulateImageProcessing_binary32 :: "binary32 list \<Rightarrow> binary32 list" where
  "SimulateImageProcessing_binary32 v
     = fold (\<lambda>i img. img[i := float32_mul2 (img ! i)]) [0..<length v] v"

definition processBatch_binary32 :: "binary32 list list \<Rightarrow> binary32 list list" where
  "processBatch_binary32 batch =
     map (\<lambda>v. fold (\<lambda>i img. img[i := float32_mul2 (img ! i)]) [0..<length v] v) batch"


subsection \<open>Memory usage of a run\<close>

text \<open>
  Go, in \<^verbatim>\<open>main\<close>: \<^verbatim>\<open>memoryBefore := memStatsBefore.Alloc\<close>,
  \<^verbatim>\<open>memoryAfter := memStatsAfter.Alloc\<close>, \<^verbatim>\<open>memoryUsage := memoryAfter - memoryBefore\<close>.
  \<^verbatim>\<open>MemStats.Alloc\<close> is a \<^verbatim>\<open>uint64\<close>, so the difference is a \<^verbatim>\<open>uint64\<close> and wraps. The
  log line prints \<^verbatim>\<open>float64(memoryUsage)/(1024*1024)\<close>, the unsigned reading.
\<close>

definition memoryUsage_go :: "64 word \<Rightarrow> 64 word \<Rightarrow> 64 word" where
  "memoryUsage_go memoryBefore memoryAfter = memoryAfter - memoryBefore"

definition memoryUsage_go_value :: "64 word \<Rightarrow> 64 word \<Rightarrow> int" where
  "memoryUsage_go_value memoryBefore memoryAfter =
     uint (memoryUsage_go memoryBefore memoryAfter)"

text \<open>
  Java, in \<^verbatim>\<open>main\<close>: \<^verbatim>\<open>long memoryUsage = memoryAfter - memoryBefore\<close>, both operands
  \<^verbatim>\<open>long\<close> (\<^verbatim>\<open>runtime.totalMemory() - runtime.freeMemory()\<close>). The difference is a
  signed 64-bit value.
\<close>

definition memoryUsage_java :: "64 word \<Rightarrow> 64 word \<Rightarrow> 64 word" where
  "memoryUsage_java memoryBefore memoryAfter = memoryAfter - memoryBefore"

definition memoryUsage_java_value :: "64 word \<Rightarrow> 64 word \<Rightarrow> int" where
  "memoryUsage_java_value memoryBefore memoryAfter =
     sint (memoryUsage_java memoryBefore memoryAfter)"

subsection \<open>Go: the batcher\<close>

text \<open>
  The constants of the Go programs. \<^verbatim>\<open>batchSize\<close> is a parameter of the model's
  functions, so that the properties are proved for every batch size; the programs run
  them at \<open>batchSize\<close>.
\<close>

definition batchSize :: nat where
  "batchSize = 500"

definition numRuns :: nat where
  "numRuns = 100"

text \<open>The run-time panics of Go that the modelled code can raise.\<close>

datatype panic =
  IndexOutOfRange | SliceBoundsOutOfRange | IntegerDivideByZero | NegativeWaitGroupCounter

text \<open>
  A slice of one of the two dataset arrays: its offset into the array and its length.
  \<^verbatim>\<open>ImageBatch\<close> is the struct of the source; its two fields are slices of \<^verbatim>\<open>images\<close>
  and \<^verbatim>\<open>labels\<close>, so a batch shares the vectors of the dataset.
\<close>

record slice =
  s_off :: nat
  s_len :: nat

record ImageBatch =
  Images :: slice
  Labels :: slice

text \<open>
  The slice expression \<^verbatim>\<open>a[lo:hi]\<close> on a slice that starts at offset 0. Go checks
  \<open>lo \<le> hi \<le> cap(a)\<close>; the model takes dataset slices whose capacity is their length
  \<open>n\<close>.
\<close>

definition slice_expr :: "nat \<Rightarrow> nat \<Rightarrow> nat \<Rightarrow> panic + slice" where
  "slice_expr n lo hi =
     (if lo \<le> hi \<and> hi \<le> n then Inr \<lparr>s_off = lo, s_len = hi - lo\<rparr>
      else Inl SliceBoundsOutOfRange)"

text \<open>The elements a slice denotes in its array.\<close>

definition slice_view :: "'a list \<Rightarrow> slice \<Rightarrow> 'a list" where
  "slice_view xs s = take (s_len s) (drop (s_off s) xs)"

text \<open>
  The body of the batching loop of \<^verbatim>\<open>RunProcessingTask\<close>:
  \<^verbatim>\<open>start := i * batchSize; end := start + batchSize;
  batches[i] = ImageBatch{Images: images[start:end], Labels: labels[start:end]}\<close>.
\<close>

definition make_batch :: "nat \<Rightarrow> nat \<Rightarrow> nat \<Rightarrow> nat \<Rightarrow> panic + ImageBatch" where
  "make_batch bs n_images n_labels i =
     (let start = i * bs; end = start + bs in
      case slice_expr n_images start end of
        Inl p \<Rightarrow> Inl p
      | Inr im \<Rightarrow>
          (case slice_expr n_labels start end of
             Inl p \<Rightarrow> Inl p
           | Inr lb \<Rightarrow> Inr \<lparr>Images = im, Labels = lb\<rparr>))"

primrec batch_loop :: "nat \<Rightarrow> nat \<Rightarrow> nat \<Rightarrow> nat list \<Rightarrow> panic + ImageBatch list" where
  "batch_loop bs n_images n_labels [] = Inr []"
| "batch_loop bs n_images n_labels (i # is) =
     (case make_batch bs n_images n_labels i of
        Inl p \<Rightarrow> Inl p
      | Inr b \<Rightarrow>
          (case batch_loop bs n_images n_labels is of
             Inl p \<Rightarrow> Inl p
           | Inr bl \<Rightarrow> Inr (b # bl)))"

text \<open>
  The first part of \<^verbatim>\<open>RunProcessingTask\<close> (\<^verbatim>\<open>// Divide into batches\<close>):
  \<^verbatim>\<open>numBatches := totalImages / batchSize\<close> and the loop over \<open>i < numBatches\<close>.
  An integer division by zero panics in Go.
\<close>

definition RunProcessingTask_batches ::
  "nat \<Rightarrow> addr list \<Rightarrow> 'l list \<Rightarrow> panic + ImageBatch list" where
  "RunProcessingTask_batches bs images labels =
     (if bs = 0 then Inl IntegerDivideByZero
      else
        let totalImages = length images; numBatches = totalImages div bs
        in batch_loop bs totalImages (length labels) [0..<numBatches])"

text \<open>The (vector, label) pairs a batch holds.\<close>

definition batch_items :: "addr list \<Rightarrow> 'l list \<Rightarrow> ImageBatch \<Rightarrow> (addr \<times> 'l) list" where
  "batch_items images labels b =
     zip (slice_view images (Images b)) (slice_view labels (Labels b))"

subsection \<open>Go: one goroutine per batch, joined by a WaitGroup\<close>

text \<open>
  \<^verbatim>\<open>ProcessBatch(batch, wg)\<close> runs
  \<^verbatim>\<open>defer wg.Done(); for i, image := range batch.Images { batch.Images[i] = SimulateImageProcessing(image) }\<close>.
  The state of one such goroutine: its copy of the batch, the index \<open>i\<close> of the outer
  loop, the slice \<^verbatim>\<open>image\<close> while \<^verbatim>\<open>SimulateImageProcessing\<close> runs on it (its address
  and the index of the inner loop), and whether the deferred \<^verbatim>\<open>wg.Done()\<close> has run.
\<close>

record goroutine =
  g_batch :: ImageBatch
  g_i :: nat
  g_image :: "(addr \<times> nat) option"
  g_done :: bool

text \<open>
  The state of a run of \<^verbatim>\<open>RunProcessingTask\<close> after the batches are made: the heap of
  pixel arrays, the array behind the slice \<^verbatim>\<open>images\<close>, the batches the launching loop
  has not reached yet, the goroutines it has started, the counter of the
  \<^verbatim>\<open>WaitGroup\<close>, whether \<^verbatim>\<open>wg.Wait()\<close> has returned, and a panic if one was raised.
\<close>

record go_run =
  heap :: "addr \<Rightarrow> float32 list"
  imgs :: "addr list"
  pending :: "ImageBatch list"
  gs :: "goroutine list"
  wg :: int
  waited :: bool
  crashed :: "panic option"

text \<open>
  One atomic step of goroutine \<open>j\<close>:
  \<^item> outside \<^verbatim>\<open>SimulateImageProcessing\<close>, with \<open>i < len(batch.Images)\<close>: read
    \<^verbatim>\<open>batch.Images[i]\<close> into \<^verbatim>\<open>image\<close> and enter the inner loop;
  \<^item> outside, with the range exhausted: run the deferred \<^verbatim>\<open>wg.Done()\<close>, which panics
    when the counter would become negative;
  \<^item> inside, with \<open>k < len(image)\<close>: \<^verbatim>\<open>image[k] = image[k] * 2\<close>;
  \<^item> inside, with the inner range exhausted: return \<^verbatim>\<open>image\<close> and store it in
    \<^verbatim>\<open>batch.Images[i]\<close>, then advance \<open>i\<close>.
\<close>

definition ProcessBatch_step :: "nat \<Rightarrow> go_run \<Rightarrow> go_run" where
  "ProcessBatch_step j rs =
     (let g = gs rs ! j; im = Images (g_batch g) in
      if g_done g then rs
      else
        (case g_image g of
           None \<Rightarrow>
             if g_i g < s_len im
             then rs\<lparr>gs := (gs rs)[j := g\<lparr>g_image := Some (imgs rs ! (s_off im + g_i g), 0)\<rparr>]\<rparr>
             else if wg rs \<le> 0 then rs\<lparr>crashed := Some NegativeWaitGroupCounter\<rparr>
             else rs\<lparr>wg := wg rs - 1, gs := (gs rs)[j := g\<lparr>g_done := True\<rparr>]\<rparr>
         | Some (a, k) \<Rightarrow>
             if k < length (heap rs a)
             then rs\<lparr>heap := (heap rs)(a := (heap rs a)[k := heap rs a ! k * 2]),
                     gs := (gs rs)[j := g\<lparr>g_image := Some (a, k + 1)\<rparr>]\<rparr>
             else rs\<lparr>imgs := (imgs rs)[s_off im + g_i g := a],
                     gs := (gs rs)[j := g\<lparr>g_i := g_i g + 1, g_image := None\<rparr>]\<rparr>))"

text \<open>
  One step of the goroutine that runs \<^verbatim>\<open>RunProcessingTask\<close>: in the loop
  \<^verbatim>\<open>for _, batch := range batches { wg.Add(1); go ProcessBatch(batch, &wg) }\<close> it starts
  the next goroutine; after the loop it is in \<^verbatim>\<open>wg.Wait()\<close>, which returns once the
  counter is zero and blocks otherwise.
\<close>

definition launch_or_wait :: "go_run \<Rightarrow> go_run" where
  "launch_or_wait rs =
     (case pending rs of
        b # bl \<Rightarrow>
          rs\<lparr>pending := bl, wg := wg rs + 1,
             gs := gs rs @ [\<lparr>g_batch = b, g_i = 0, g_image = None, g_done = False\<rparr>]\<rparr>
      | [] \<Rightarrow> if wg rs = 0 then rs\<lparr>waited := True\<rparr> else rs)"

text \<open>
  The scheduler's choice: the launching goroutine or the goroutine of batch \<open>j\<close>. A
  goroutine that does not exist yet, a finished one and a blocked \<^verbatim>\<open>wg.Wait()\<close> leave
  the state as it is. Nothing moves after a panic or after \<^verbatim>\<open>wg.Wait()\<close> has returned.
\<close>

datatype go_event = Launcher | Worker nat

definition go_step :: "go_event \<Rightarrow> go_run \<Rightarrow> go_run" where
  "go_step e rs =
     (if crashed rs \<noteq> None \<or> waited rs then rs
      else
        (case e of
           Launcher \<Rightarrow> launch_or_wait rs
         | Worker j \<Rightarrow> if j < length (gs rs) then ProcessBatch_step j rs else rs))"

definition go_start ::
  "(addr \<Rightarrow> float32 list) \<Rightarrow> addr list \<Rightarrow> ImageBatch list \<Rightarrow> go_run" where
  "go_start h images batches =
     \<lparr>heap = h, imgs = images, pending = batches, gs = [], wg = 0, waited = False,
      crashed = None\<rparr>"

text \<open>
  Time. \<^verbatim>\<open>time.Now()\<close> carries a monotonic clock reading and \<^verbatim>\<open>time.Since(t)\<close> is
  \<^verbatim>\<open>time.Now().Sub(t)\<close>, the difference of the two monotonic readings as a
  \<^verbatim>\<open>Duration\<close> (an \<^verbatim>\<open>int64\<close> of nanoseconds), saturated at the largest and smallest
  \<^verbatim>\<open>Duration\<close>. The clock of a run is the sequence of the readings that its calls of
  \<^verbatim>\<open>time.Now()\<close> obtain, in the order of the calls.
\<close>

definition time_Sub :: "int \<Rightarrow> int \<Rightarrow> int" where
  "time_Sub t u =
     (let d = t - u in
      if d > 2 ^ 63 - 1 then 2 ^ 63 - 1 else if d < - (2 ^ 63) then - (2 ^ 63) else d)"

text \<open>The outcome of a call: a value, a panic, or a caller still blocked when the schedule ends.\<close>

datatype 'a outcome = Returns 'a | Panics panic | Blocked

text \<open>
  \<^verbatim>\<open>RunProcessingTask(images, labels)\<close> of \<^verbatim>\<open>go/cifar-10\<close> and \<^verbatim>\<open>go/tinyimagenet\<close>
  (the variants with metrics): make the batches, read the clock twice
  (\<^verbatim>\<open>startOverhead\<close>, \<^verbatim>\<open>startExecution\<close>), start the goroutines and wait for them, then
  \<^verbatim>\<open>executionTime := time.Since(startExecution)\<close> and
  \<^verbatim>\<open>concurrencyOverhead := time.Since(startOverhead)\<close>. The result carries the two
  durations and the memory the run leaves behind.
\<close>

definition RunProcessingTask ::
  "nat \<Rightarrow> (nat \<Rightarrow> int) \<Rightarrow> go_event list \<Rightarrow> (addr \<Rightarrow> float32 list) \<Rightarrow> addr list \<Rightarrow> 'l list
     \<Rightarrow> (int \<times> int \<times> (addr \<Rightarrow> float32 list) \<times> addr list) outcome" where
  "RunProcessingTask bs clock sched h images labels =
     (case RunProcessingTask_batches bs images labels of
        Inl p \<Rightarrow> Panics p
      | Inr batches \<Rightarrow>
          (let startOverhead = clock 0;
               startExecution = clock 1;
               rs = fold go_step sched (go_start h images batches)
           in case crashed rs of
                Some p \<Rightarrow> Panics p
              | None \<Rightarrow>
                  if waited rs
                  then
                    (let executionTime = time_Sub (clock 2) startExecution;
                         concurrencyOverhead = time_Sub (clock 3) startOverhead
                     in Returns (executionTime, concurrencyOverhead, heap rs, imgs rs))
                  else Blocked))"

text \<open>
  The loop of \<^verbatim>\<open>main\<close>, \<^verbatim>\<open>for i := 0; i < numRuns; i++\<close>, as far as it touches the
  dataset: every iteration calls \<^verbatim>\<open>RunProcessingTask(images, labels)\<close> on the same
  slices, and the next iteration starts when the call has returned. Each run has a clock
  and a schedule of its own.
\<close>

primrec main_runs ::
  "nat \<Rightarrow> ((nat \<Rightarrow> int) \<times> go_event list) list \<Rightarrow> (addr \<Rightarrow> float32 list) \<Rightarrow> addr list \<Rightarrow> 'l list
     \<Rightarrow> ((addr \<Rightarrow> float32 list) \<times> addr list) outcome" where
  "main_runs bs [] h images labels = Returns (h, images)"
| "main_runs bs (env # envs) h images labels =
     (case RunProcessingTask bs (fst env) (snd env) h images labels of
        Returns (executionTime, concurrencyOverhead, h', images') \<Rightarrow>
          main_runs bs envs h' images' labels
      | Panics p \<Rightarrow> Panics p
      | Blocked \<Rightarrow> Blocked)"

subsection \<open>The loaders\<close>

text \<open>
  Go, \<^verbatim>\<open>LoadCIFAR10(dataDir)\<close>. The constants of \<^verbatim>\<open>go/cifar-10\<close>:
\<close>

definition numImagesPerBatch :: nat where
  "numImagesPerBatch = 10000"

definition imageHeight :: nat where
  "imageHeight = 32"

definition imageWidth :: nat where
  "imageWidth = 32"

definition channels :: nat where
  "channels = 3"

definition imageSize :: nat where
  "imageSize = imageHeight * imageWidth * channels"

text \<open>
  A byte slice as \<^verbatim>\<open>ioutil.ReadFile\<close> returns it: the bytes of the file (\<open>len\<close> of them),
  and the spare capacity of the array behind them, which a slice expression can reach.
  An index expression checks the length, a slice expression the capacity.
\<close>

record go_bytes =
  b_data :: "8 word list"
  b_spare :: "8 word list"

definition index_expr :: "go_bytes \<Rightarrow> nat \<Rightarrow> panic + 8 word" where
  "index_expr d k = (if k < length (b_data d) then Inr (b_data d ! k) else Inl IndexOutOfRange)"

definition bytes_slice_expr :: "go_bytes \<Rightarrow> nat \<Rightarrow> nat \<Rightarrow> panic + go_bytes" where
  "bytes_slice_expr d lo hi =
     (if lo \<le> hi \<and> hi \<le> length (b_data d) + length (b_spare d)
      then Inr \<lparr>b_data = take (hi - lo) (drop lo (b_data d @ b_spare d)),
                b_spare = drop hi (b_data d @ b_spare d)\<rparr>
      else Inl SliceBoundsOutOfRange)"

text \<open>
  The body of the loop over the records of a file:
  \<^verbatim>\<open>label := int(data[j*(imageSize+1)])\<close>,
  \<^verbatim>\<open>imageData := data[j*(imageSize+1)+1 : (j+1)*(imageSize+1)]\<close>,
  \<^verbatim>\<open>image[k] = float32(imageData[k]) / 255.0\<close> for \<open>k < imageSize\<close>.
\<close>

definition read_record :: "go_bytes \<Rightarrow> nat \<Rightarrow> panic + (float32 list \<times> int)" where
  "read_record d j =
     (case index_expr d (j * (imageSize + 1)) of
        Inl p \<Rightarrow> Inl p
      | Inr lb \<Rightarrow>
          (case bytes_slice_expr d (j * (imageSize + 1) + 1) ((j + 1) * (imageSize + 1)) of
             Inl p \<Rightarrow> Inl p
           | Inr imageData \<Rightarrow>
               Inr (map (\<lambda>k. real (unat (b_data imageData ! k)) / 255) [0..<imageSize],
                    int (unat lb))))"

fun read_records ::
  "go_bytes \<Rightarrow> nat list \<Rightarrow> float32 list list \<times> int list
     \<Rightarrow> panic + (float32 list list \<times> int list)" where
  "read_records d [] acc = Inr acc"
| "read_records d (j # js) acc =
     (case read_record d j of
        Inl p \<Rightarrow> Inl p
      | Inr (img, label) \<Rightarrow> read_records d js (fst acc @ [img], snd acc @ [label]))"

text \<open>
  The loop over the five files. The environment is the function \<open>files\<close>: what
  \<^verbatim>\<open>ioutil.ReadFile\<close> returns for \<^verbatim>\<open>data_batch_i.bin\<close> in \<^verbatim>\<open>dataDir\<close>, \<open>None\<close> when it
  returns an error. The function returns the error of \<^verbatim>\<open>fmt.Errorf\<close>, or the images and
  labels, or it panics.
\<close>

datatype load_error = ReadFileFailed nat

fun load_files ::
  "(nat \<Rightarrow> go_bytes option) \<Rightarrow> nat list \<Rightarrow> float32 list list \<times> int list
     \<Rightarrow> (load_error + float32 list list \<times> int list) outcome" where
  "load_files files [] acc = Returns (Inr acc)"
| "load_files files (i # is) acc =
     (case files i of
        None \<Rightarrow> Returns (Inl (ReadFileFailed i))
      | Some d \<Rightarrow>
          (case read_records d [0..<numImagesPerBatch] acc of
             Inl p \<Rightarrow> Panics p
           | Inr acc' \<Rightarrow> load_files files is acc'))"

definition LoadCIFAR10 ::
  "(nat \<Rightarrow> go_bytes option) \<Rightarrow> (load_error + float32 list list \<times> int list) outcome" where
  "LoadCIFAR10 files = load_files files [1..<6] ([], [])"

text \<open>
  Java, \<^verbatim>\<open>loadCifar10Dataset(dataDir)\<close>. For each of the five files it compares
  \<^verbatim>\<open>file.length()\<close> (0 for a file that does not exist) with
  \<^verbatim>\<open>NUM_IMAGES_PER_BATCH * (1 + IMAGE_SIZE)\<close> and throws an \<^verbatim>\<open>IOException\<close> when the
  file is smaller; then it reads the records from a stream, checking \<^verbatim>\<open>dis.available()\<close>
  before each one, and adds every image as a batch of its own:
  \<^verbatim>\<open>allBatches.add(new float[][]{image})\<close>. The label byte is read and dropped. The
  environment \<open>files\<close> gives the content of \<^verbatim>\<open>data_batch_i.bin\<close>, \<open>None\<close> when the file
  does not exist. \<^verbatim>\<open>BATCH_SIZE = 500\<close> is declared by the class and used nowhere.
\<close>

definition NUM_IMAGES_PER_BATCH :: nat where
  "NUM_IMAGES_PER_BATCH = 10000"

definition IMAGE_SIZE :: nat where
  "IMAGE_SIZE = 32 * 32 * 3"

datatype IOException = FileSmallerThanExpected nat | UnexpectedEndOfFile nat nat

fun read_images ::
  "nat \<Rightarrow> nat list \<Rightarrow> 8 word list \<Rightarrow> float32 list list list
     \<Rightarrow> IOException + float32 list list list" where
  "read_images i [] dis allBatches = Inr allBatches"
| "read_images i (j # js) dis allBatches =
     (if length dis < 1 + IMAGE_SIZE then Inl (UnexpectedEndOfFile i j)
      else
        (let dis1 = drop 1 dis;
             img = map (\<lambda>b. real (unat b) / 255) (take IMAGE_SIZE dis1)
         in read_images i js (drop IMAGE_SIZE dis1) (allBatches @ [[img]])))"

fun load_batches ::
  "(nat \<Rightarrow> 8 word list option) \<Rightarrow> nat list \<Rightarrow> float32 list list list
     \<Rightarrow> IOException + float32 list list list" where
  "load_batches files [] allBatches = Inr allBatches"
| "load_batches files (i # is) allBatches =
     (let expectedSize = NUM_IMAGES_PER_BATCH * (1 + IMAGE_SIZE) in
      case files i of
        None \<Rightarrow> Inl (FileSmallerThanExpected i)
      | Some content \<Rightarrow>
          if length content < expectedSize then Inl (FileSmallerThanExpected i)
          else
            (case read_images i [0..<NUM_IMAGES_PER_BATCH] content allBatches of
               Inl e \<Rightarrow> Inl e
             | Inr allBatches' \<Rightarrow> load_batches files is allBatches'))"

definition loadCifar10Dataset ::
  "(nat \<Rightarrow> 8 word list option) \<Rightarrow> IOException + float32 list list list" where
  "loadCifar10Dataset files = load_batches files [1..<6] []"

definition file_length :: "8 word list option \<Rightarrow> nat" where
  "file_length f = (case f of None \<Rightarrow> 0 | Some content \<Rightarrow> length content)"


definition BATCH_SIZE :: nat where
  "BATCH_SIZE = 500"

subsection \<open>Go: the invariant of a run\<close>

text \<open>
  The batch the loop makes at index \<open>i\<close>, in closed form, and the predicates that
  describe the reachable states of a run. They are relative to the memory at the start
  of the run: the array \<open>o0\<close> behind \<^verbatim>\<open>images\<close>, the heap \<open>h0\<close> and the list \<open>bl\<close> of
  the batches.
\<close>

definition nth_batch :: "nat \<Rightarrow> nat \<Rightarrow> ImageBatch" where
  "nth_batch bs i =
     \<lparr>Images = \<lparr>s_off = i * bs, s_len = bs\<rparr>, Labels = \<lparr>s_off = i * bs, s_len = bs\<rparr>\<rparr>"


text \<open>The length of a batch and the address of its \<open>q\<close>-th vector.\<close>

definition blen :: "ImageBatch \<Rightarrow> nat" where
  "blen b = s_len (Images b)"

definition vec_at :: "addr list \<Rightarrow> ImageBatch \<Rightarrow> nat \<Rightarrow> addr" where
  "vec_at o0 b q = o0 ! (s_off (Images b) + q)"

definition prog :: "goroutine \<Rightarrow> nat \<Rightarrow> float32 list \<Rightarrow> float32 list" where
  "prog g q v =
     (if q < g_i g then map (\<lambda>e. 2 * e) v
      else if q = g_i g
        then (case g_image g of
                None \<Rightarrow> v
              | Some (a, k) \<Rightarrow> map (\<lambda>e. 2 * e) (take k v) @ drop k v)
        else v)"

definition good_g ::
  "addr list \<Rightarrow> (addr \<Rightarrow> float32 list) \<Rightarrow> ImageBatch \<Rightarrow> goroutine \<Rightarrow> bool" where
  "good_g o0 h0 b g \<longleftrightarrow>
     g_batch g = b \<and> g_i g \<le> blen b \<and>
     (case g_image g of
        None \<Rightarrow> True
      | Some (a, k) \<Rightarrow> g_i g < blen b \<and> a = vec_at o0 b (g_i g) \<and> k \<le> length (h0 a)) \<and>
     (g_done g \<longrightarrow> g_i g = blen b \<and> g_image g = None)"

definition shape ::
  "addr list \<Rightarrow> (addr \<Rightarrow> float32 list) \<Rightarrow> ImageBatch list \<Rightarrow> go_run \<Rightarrow> bool" where
  "shape o0 h0 bl rs \<longleftrightarrow>
     imgs rs = o0 \<and> crashed rs = None \<and> length (gs rs) \<le> length bl \<and>
     pending rs = drop (length (gs rs)) bl \<and>
     (\<forall>j < length (gs rs). good_g o0 h0 (bl ! j) (gs rs ! j)) \<and>
     wg rs = int (length (filter (\<lambda>g. \<not> g_done g) (gs rs))) \<and>
     (waited rs \<longrightarrow> pending rs = [] \<and> wg rs = 0)"

definition heap_ok ::
  "addr list \<Rightarrow> (addr \<Rightarrow> float32 list) \<Rightarrow> ImageBatch list \<Rightarrow> go_run \<Rightarrow> bool" where
  "heap_ok o0 h0 bl rs \<longleftrightarrow>
     (\<forall>j < length (gs rs). \<forall>q < blen (bl ! j).
        heap rs (vec_at o0 (bl ! j) q) = prog (gs rs ! j) q (h0 (vec_at o0 (bl ! j) q))) \<and>
     (\<forall>a. (\<forall>j < length (gs rs). \<forall>q < blen (bl ! j). a \<noteq> vec_at o0 (bl ! j) q)
        \<longrightarrow> heap rs a = h0 a)"

definition sep :: "addr list \<Rightarrow> ImageBatch list \<Rightarrow> bool" where
  "sep o0 bl \<longleftrightarrow>
     (\<forall>j j' q q'. j < length bl \<longrightarrow> j' < length bl \<longrightarrow> q < blen (bl ! j) \<longrightarrow> q' < blen (bl ! j')
        \<longrightarrow> vec_at o0 (bl ! j) q = vec_at o0 (bl ! j') q' \<longrightarrow> j = j' \<and> q = q') \<and>
     (\<forall>j q. j < length bl \<longrightarrow> q < blen (bl ! j) \<longrightarrow> s_off (Images (bl ! j)) + q < length o0)"


definition go_inv ::
  "addr list \<Rightarrow> (addr \<Rightarrow> float32 list) \<Rightarrow> ImageBatch list \<Rightarrow> go_run \<Rightarrow> bool" where
  "go_inv o0 h0 bl rs \<longleftrightarrow> shape o0 h0 bl rs \<and> heap_ok o0 h0 bl rs"


text \<open>
  How far a run is from its end: the steps goroutine \<open>g\<close> has still to take (two for
  every vector it has not reached, plus the elements of those vectors, plus the deferred
  \<^verbatim>\<open>wg.Done()\<close>), and the steps the whole run has still to take (one launch for every
  pending batch, the steps of the goroutines, and the return of \<^verbatim>\<open>wg.Wait()\<close>).
\<close>

definition steps_left :: "addr list \<Rightarrow> (addr \<Rightarrow> float32 list) \<Rightarrow> goroutine \<Rightarrow> nat" where
  "steps_left o0 h0 g =
     (if g_done g then 0
      else
        (case g_image g of
           None \<Rightarrow> 1 + (\<Sum>q\<leftarrow>[g_i g..<blen (g_batch g)]. 2 + length (h0 (vec_at o0 (g_batch g) q)))
         | Some (a, k) \<Rightarrow>
             1 + (1 + length (h0 a) - k)
               + (\<Sum>q\<leftarrow>[g_i g + 1..<blen (g_batch g)]. 2 + length (h0 (vec_at o0 (g_batch g) q)))))"

definition run_left :: "addr list \<Rightarrow> (addr \<Rightarrow> float32 list) \<Rightarrow> go_run \<Rightarrow> nat" where
  "run_left o0 h0 rs =
     (if waited rs then 0 else 1)
     + (\<Sum>b\<leftarrow>pending rs. 1 + steps_left o0 h0 \<lparr>g_batch = b, g_i = 0, g_image = None, g_done = False\<rparr>)
     + (\<Sum>g\<leftarrow>gs rs. steps_left o0 h0 g)"


subsection \<open>Java: a producer, a bounded queue and a pool of consumers\<close>

text \<open>
  One run of the Java CIFAR harness starts a thread on
  \<^verbatim>\<open>produceBatches(allBatches, queue, isDoneProducing)\<close> and calls
  \<^verbatim>\<open>processBatches(queue, isDoneProducing)\<close>, which starts \<^verbatim>\<open>NUM_CONSUMERS\<close> tasks on a
  fixed thread pool, shuts the pool down and waits for it with
  \<^verbatim>\<open>consumers.awaitTermination(10, TimeUnit.MINUTES)\<close>. A batch is a \<^verbatim>\<open>float[][]\<close>: the
  list of the addresses of its images.

  The producer is
  \<^verbatim>\<open>try { for (float[][] batch : allBatches) { queue.put(batch); } }\<close>
  \<^verbatim>\<open>catch (Exception e) { e.printStackTrace(); } finally { isDoneProducing.set(true); }\<close>.
  It is in the loop, or has left the \<^verbatim>\<open>try\<close> block and stands before the
  \<^verbatim>\<open>finally\<close> block, or has returned.
\<close>

datatype producer_pc = Putting | InFinally | ProducerDone

text \<open>
  A consumer task is
  \<^verbatim>\<open>while (!isDoneProducing.get() || !queue.isEmpty()) {\<close>
  \<^verbatim>\<open>float[][] batch = queue.poll(1, TimeUnit.SECONDS); if (batch != null) { processBatch(batch); } }\<close>.
  It stands before the first test of the loop condition, before the second one (reached
  only when the flag was read as set), in \<^verbatim>\<open>poll\<close>, in \<^verbatim>\<open>processBatch\<close>, or it
  has left the loop. In \<^verbatim>\<open>processBatch\<close> it holds the images of its batch that are not
  finished yet and the index \<open>i\<close> of the inner loop on the first of them.
\<close>

datatype consumer_pc = AtLoopTest | AtQueueTest | AtPoll | InProcessBatch | ConsumerDone

record consumer =
  c_pc :: consumer_pc
  c_batch :: "addr list"
  c_i :: nat

text \<open>
  \<^verbatim>\<open>awaitTermination\<close> ends in one of three ways: it returns \<^verbatim>\<open>true\<close> (every task of
  the pool has completed), it returns \<^verbatim>\<open>false\<close> (the ten minutes have elapsed first), or
  it throws \<^verbatim>\<open>InterruptedException\<close>. The CIFAR harness prints a stack trace in two
  places: the \<^verbatim>\<open>catch\<close> block of the producer and the one around
  \<^verbatim>\<open>awaitTermination\<close>. The Tiny ImageNet harness logs the line "Consumer threads
  failed to terminate in time." in the latter place.
\<close>

datatype await_result = Terminated | TimedOut | Interrupted

datatype log_line = ProducerStackTrace | AwaitStackTrace | FailedToTerminateInTime

text \<open>
  The state of a run: the heap of pixel arrays; the producer's position, the batches its
  loop has not put yet and whether its \<^verbatim>\<open>catch\<close> block has run; the queue and the flag;
  the consumers; how \<^verbatim>\<open>awaitTermination\<close> has ended, if it has; and what was printed.
\<close>

record java_run =
  j_heap :: "addr \<Rightarrow> float32 list"
  p_pc :: producer_pc
  p_rest :: "addr list list"
  p_caught :: bool
  queue :: "addr list list"
  isDoneProducing :: bool
  consumers :: "consumer list"
  awaited :: "await_result option"
  printed :: "log_line list"

text \<open>
  One step of the producer. \<^verbatim>\<open>queue.put(batch)\<close> appends the batch when the queue holds
  fewer than \<^verbatim>\<open>QUEUE_CAPACITY\<close> elements and waits otherwise; when the loop is exhausted
  the producer goes on to the \<^verbatim>\<open>finally\<close> block, which sets the flag.
\<close>

definition produceBatches_step :: "nat \<Rightarrow> java_run \<Rightarrow> java_run" where
  "produceBatches_step capacity rs =
     (case p_pc rs of
        Putting \<Rightarrow>
          (case p_rest rs of
             [] \<Rightarrow> rs\<lparr>p_pc := InFinally\<rparr>
           | batch # rest \<Rightarrow>
               if length (queue rs) < capacity
               then rs\<lparr>queue := queue rs @ [batch], p_rest := rest\<rparr>
               else rs)
      | InFinally \<Rightarrow> rs\<lparr>isDoneProducing := True, p_pc := ProducerDone\<rparr>
      | ProducerDone \<Rightarrow> rs)"

text \<open>
  \<^verbatim>\<open>queue.put\<close> throws \<^verbatim>\<open>InterruptedException\<close> when the producer thread is interrupted
  in it: the batch is not put, the loop is left, \<^verbatim>\<open>catch (Exception e)\<close> prints the
  stack trace and the \<^verbatim>\<open>finally\<close> block is next. The harness itself never interrupts
  the producer; the step is in the model because the code provides for it.
\<close>

definition put_interrupted :: "java_run \<Rightarrow> java_run" where
  "put_interrupted rs =
     (if p_pc rs = Putting \<and> p_rest rs \<noteq> []
      then rs\<lparr>p_caught := True, p_pc := InFinally, printed := printed rs @ [ProducerStackTrace]\<rparr>
      else rs)"

text \<open>
  One step of consumer \<open>i\<close>:
  \<^item> at the loop condition, \<^verbatim>\<open>!isDoneProducing.get()\<close> is read; when it is true the
    body is entered, otherwise \<^verbatim>\<open>!queue.isEmpty()\<close> is read next, and the loop is left
    when the queue is empty;
  \<^item> in \<^verbatim>\<open>poll\<close>, the head of the queue is taken when there is one (the consumer waits
    otherwise) and \<^verbatim>\<open>processBatch(batch)\<close> starts;
  \<^item> in \<^verbatim>\<open>processBatch\<close>, which is
    \<^verbatim>\<open>for (float[] image : batch) { for (int i = 0; i < image.length; i++) { image[i] *= 2; } }\<close>,
    one element is doubled, or the next image is started, or the method returns to the
    loop condition.
\<close>

definition consumerTask_step :: "nat \<Rightarrow> java_run \<Rightarrow> java_run" where
  "consumerTask_step i rs =
     (let c = consumers rs ! i in
      case c_pc c of
        AtLoopTest \<Rightarrow>
          if \<not> isDoneProducing rs
          then rs\<lparr>consumers := (consumers rs)[i := c\<lparr>c_pc := AtPoll\<rparr>]\<rparr>
          else rs\<lparr>consumers := (consumers rs)[i := c\<lparr>c_pc := AtQueueTest\<rparr>]\<rparr>
      | AtQueueTest \<Rightarrow>
          if queue rs \<noteq> []
          then rs\<lparr>consumers := (consumers rs)[i := c\<lparr>c_pc := AtPoll\<rparr>]\<rparr>
          else rs\<lparr>consumers := (consumers rs)[i := c\<lparr>c_pc := ConsumerDone\<rparr>]\<rparr>
      | AtPoll \<Rightarrow>
          (case queue rs of
             [] \<Rightarrow> rs
           | batch # rest \<Rightarrow>
               rs\<lparr>queue := rest,
                  consumers := (consumers rs)
                    [i := c\<lparr>c_pc := InProcessBatch, c_batch := batch, c_i := 0\<rparr>]\<rparr>)
      | InProcessBatch \<Rightarrow>
          (case c_batch c of
             [] \<Rightarrow> rs\<lparr>consumers := (consumers rs)[i := c\<lparr>c_pc := AtLoopTest\<rparr>]\<rparr>
           | a # rest \<Rightarrow>
               if c_i c < length (j_heap rs a)
               then rs\<lparr>j_heap := (j_heap rs)(a := (j_heap rs a)[c_i c := j_heap rs a ! c_i c * 2]),
                       consumers := (consumers rs)[i := c\<lparr>c_i := c_i c + 1\<rparr>]\<rparr>
               else rs\<lparr>consumers := (consumers rs)[i := c\<lparr>c_batch := rest, c_i := 0\<rparr>]\<rparr>)
      | ConsumerDone \<Rightarrow> rs)"

text \<open>
  \<^verbatim>\<open>queue.poll(1, TimeUnit.SECONDS)\<close> returns \<^verbatim>\<open>null\<close> when the queue has stayed empty
  for a second; the body of the loop then does nothing and the condition is tested again.
\<close>

definition poll_times_out :: "nat \<Rightarrow> java_run \<Rightarrow> java_run" where
  "poll_times_out i rs =
     (let c = consumers rs ! i in
      if c_pc c = AtPoll \<and> queue rs = []
      then rs\<lparr>consumers := (consumers rs)[i := c\<lparr>c_pc := AtLoopTest\<rparr>]\<rparr>
      else rs)"

text \<open>
  The pool has terminated when every consumer task has returned. The end of
  \<^verbatim>\<open>awaitTermination\<close> is recorded once: \<^verbatim>\<open>true\<close> can only be returned by a terminated
  pool, \<^verbatim>\<open>false\<close> only by one that has not terminated, and an interruption is caught by
  \<^verbatim>\<open>catch (InterruptedException e) { e.printStackTrace(); }\<close>.
\<close>

definition pool_terminated :: "java_run \<Rightarrow> bool" where
  "pool_terminated rs = list_all (\<lambda>c. c_pc c = ConsumerDone) (consumers rs)"

definition awaitTermination_step :: "await_result \<Rightarrow> java_run \<Rightarrow> java_run" where
  "awaitTermination_step r rs =
     (if awaited rs \<noteq> None then rs
      else
        (case r of
           Terminated \<Rightarrow> if pool_terminated rs then rs\<lparr>awaited := Some Terminated\<rparr> else rs
         | TimedOut \<Rightarrow> if pool_terminated rs then rs else rs\<lparr>awaited := Some TimedOut\<rparr>
         | Interrupted \<Rightarrow>
             rs\<lparr>awaited := Some Interrupted, printed := printed rs @ [AwaitStackTrace]\<rparr>))"

text \<open>
  The events of a run are the steps of the threads and what the environment decides:
  an interruption of the producer, the expiry of a consumer's \<^verbatim>\<open>poll\<close>, and the way
  \<^verbatim>\<open>awaitTermination\<close> ends. A run is the initial state followed by a schedule of events.
\<close>

datatype java_event =
  Producer | InterruptProducer | Consumer nat | PollTimeout nat | Await await_result

definition java_step :: "nat \<Rightarrow> java_event \<Rightarrow> java_run \<Rightarrow> java_run" where
  "java_step capacity e rs =
     (case e of
        Producer \<Rightarrow> produceBatches_step capacity rs
      | InterruptProducer \<Rightarrow> put_interrupted rs
      | Consumer i \<Rightarrow> if i < length (consumers rs) then consumerTask_step i rs else rs
      | PollTimeout i \<Rightarrow> if i < length (consumers rs) then poll_times_out i rs else rs
      | Await r \<Rightarrow> awaitTermination_step r rs)"

definition java_start ::
  "(addr \<Rightarrow> float32 list) \<Rightarrow> addr list list \<Rightarrow> nat \<Rightarrow> java_run" where
  "java_start h allBatches n =
     \<lparr>j_heap = h, p_pc = Putting, p_rest = allBatches, p_caught = False, queue = [],
      isDoneProducing = False,
      consumers = replicate n \<lparr>c_pc = AtLoopTest, c_batch = [], c_i = 0\<rparr>,
      awaited = None, printed = []\<rparr>"

definition java_exec ::
  "nat \<Rightarrow> nat \<Rightarrow> java_event list \<Rightarrow> (addr \<Rightarrow> float32 list) \<Rightarrow> addr list list \<Rightarrow> java_run" where
  "java_exec capacity n sched h allBatches = fold (java_step capacity) sched (java_start h allBatches n)"

text \<open>
  How the wait for the pool ends in the code. \<^verbatim>\<open>awaitTermination\<close> returns a boolean or
  throws \<^verbatim>\<open>InterruptedException\<close>. Both harnesses call it as
  \<^verbatim>\<open>try { consumers.awaitTermination(10, TimeUnit.MINUTES); }\<close>
  \<^verbatim>\<open>catch (InterruptedException e) { ... }\<close>
  and return: the call is an expression statement, so the boolean is dropped, and the
  handler does not rethrow. The handler of the CIFAR harness (\<^verbatim>\<open>processBatches\<close>) is
  \<^verbatim>\<open>e.printStackTrace()\<close>; the handler of the Tiny ImageNet harness
  (\<^verbatim>\<open>processImages\<close>) is
  \<^verbatim>\<open>logMessage(LOG_FILE_PATH, "Consumer threads failed to terminate in time.")\<close>.
\<close>

definition awaitTermination :: "await_result \<Rightarrow> unit + bool" where
  "awaitTermination r =
     (case r of Terminated \<Rightarrow> Inr True | TimedOut \<Rightarrow> Inr False | Interrupted \<Rightarrow> Inl ())"

datatype completion = ReturnsNormally | Throws

definition try_awaitTermination :: "log_line \<Rightarrow> await_result \<Rightarrow> log_line list \<times> completion" where
  "try_awaitTermination handler r =
     (case awaitTermination r of
        Inr terminated \<Rightarrow> ([], ReturnsNormally)
      | Inl e \<Rightarrow> ([handler], ReturnsNormally))"

definition processBatches_end :: "await_result \<Rightarrow> log_line list \<times> completion" where
  "processBatches_end = try_awaitTermination AwaitStackTrace"

definition processImages_end :: "await_result \<Rightarrow> log_line list \<times> completion" where
  "processImages_end = try_awaitTermination FailedToTerminateInTime"

definition processBatches_completion :: "await_result \<Rightarrow> completion" where
  "processBatches_completion r = snd (processBatches_end r)"


subsection \<open>Java: the producer of the Tiny ImageNet harness\<close>

text \<open>
  \<^verbatim>\<open>produceImages(directory, queue, isDoneProducing)\<close> is
  \<^verbatim>\<open>try { Files.walk(Paths.get(directory)).forEach(path -> {\<close>
  \<^verbatim>\<open>try { if (Files.isRegularFile(path) && path.toString().endsWith(".jpg")) {\<close>
  \<^verbatim>\<open>BufferedImage img = ImageIO.read(path.toFile()); queue.put(img); } }\<close>
  \<^verbatim>\<open>catch (Exception e) { logMessage(LOG_FILE_PATH, "Error processing image: " + ...); } }); }\<close>
  \<^verbatim>\<open>catch (Exception e) { logMessage(LOG_FILE_PATH, "Error walking dataset directory: " + ...); }\<close>
  \<^verbatim>\<open>finally { isDoneProducing.set(true); }\<close>.

  Its input is what the file system gives: the entries of the walk in order, each with
  the answer of \<^verbatim>\<open>Files.isRegularFile\<close>, its path and what \<^verbatim>\<open>ImageIO.read\<close> does on
  it (an image, \<^verbatim>\<open>null\<close> when no reader decodes the file, or an \<^verbatim>\<open>IOException\<close>); or
  a failure of the walk itself (\<^verbatim>\<open>Files.walk\<close> throws when the directory cannot be
  opened, and the stream throws \<^verbatim>\<open>UncheckedIOException\<close> when a directory below it
  cannot be read), after which the entries that follow are not visited. An image is
  named by a number.
\<close>

datatype read_result = Decoded nat | NoReader | ReadFails

datatype walk_entry = Path bool string read_result | WalkFails

datatype image_log = ErrorProcessingImage | ErrorWalkingDirectory

text \<open>
  The state of the producer: its position (in the walk, before the \<^verbatim>\<open>finally\<close> block,
  or returned), the entries not visited yet, the images it has put in the queue so far,
  what it has logged, and the flag.
\<close>

record images_producer =
  i_pc :: producer_pc
  i_walk :: "walk_entry list"
  i_enqueued :: "nat list"
  i_log :: "image_log list"
  i_flag :: bool

definition endsWith :: "string \<Rightarrow> string \<Rightarrow> bool" where
  "endsWith s suffix \<longleftrightarrow>
     length suffix \<le> length s \<and> drop (length s - length suffix) s = suffix"

text \<open>
  One step of the producer. A regular \<^verbatim>\<open>.jpg\<close> file that is decoded is put in the queue
  (\<^verbatim>\<open>put\<close> waits while the queue is full; the step is the completed \<^verbatim>\<open>put\<close>). When
  \<^verbatim>\<open>ImageIO.read\<close> returns \<^verbatim>\<open>null\<close>, \<^verbatim>\<open>queue.put(null)\<close> throws
  \<^verbatim>\<open>NullPointerException\<close>; this and an exception of \<^verbatim>\<open>ImageIO.read\<close> are caught in
  the lambda, logged, and the walk goes on. A failure of the walk is caught outside the
  loop and logged. The \<^verbatim>\<open>finally\<close> block sets the flag.
\<close>

definition produceImages_step :: "images_producer \<Rightarrow> images_producer" where
  "produceImages_step ps =
     (case i_pc ps of
        Putting \<Rightarrow>
          (case i_walk ps of
             [] \<Rightarrow> ps\<lparr>i_pc := InFinally\<rparr>
           | WalkFails # rest \<Rightarrow>
               ps\<lparr>i_pc := InFinally, i_walk := rest, i_log := i_log ps @ [ErrorWalkingDirectory]\<rparr>
           | Path regular name r # rest \<Rightarrow>
               if regular \<and> endsWith name ''.jpg''
               then (case r of
                       Decoded img \<Rightarrow> ps\<lparr>i_walk := rest, i_enqueued := i_enqueued ps @ [img]\<rparr>
                     | NoReader \<Rightarrow> ps\<lparr>i_walk := rest, i_log := i_log ps @ [ErrorProcessingImage]\<rparr>
                     | ReadFails \<Rightarrow> ps\<lparr>i_walk := rest, i_log := i_log ps @ [ErrorProcessingImage]\<rparr>)
               else ps\<lparr>i_walk := rest\<rparr>)
      | InFinally \<Rightarrow> ps\<lparr>i_flag := True, i_pc := ProducerDone\<rparr>
      | ProducerDone \<Rightarrow> ps)"

definition produceImages_start :: "walk_entry list \<Rightarrow> images_producer" where
  "produceImages_start directory =
     \<lparr>i_pc = Putting, i_walk = directory, i_enqueued = [], i_log = [], i_flag = False\<rparr>"

text \<open>The producer after \<open>k\<close> steps.\<close>

definition produceImages_run :: "walk_entry list \<Rightarrow> nat \<Rightarrow> images_producer" where
  "produceImages_run directory k = (produceImages_step ^^ k) (produceImages_start directory)"

text \<open>
  The images that the walk delivers: those of the regular \<^verbatim>\<open>.jpg\<close> files that are
  decoded, among the entries before the first failure of the walk.
\<close>

fun readable :: "walk_entry \<Rightarrow> nat list" where
  "readable WalkFails = []"
| "readable (Path regular name r) =
     (if regular \<and> endsWith name ''.jpg''
      then (case r of Decoded img \<Rightarrow> [img] | NoReader \<Rightarrow> [] | ReadFails \<Rightarrow> [])
      else [])"

definition delivered :: "walk_entry list \<Rightarrow> nat list" where
  "delivered directory = concat (map readable (takeWhile (\<lambda>e. e \<noteq> WalkFails) directory))"

text \<open>
  The invariant of the producer: the flag is set exactly when it has returned; in the
  loop, the images put so far followed by those still to be delivered are the images
  the walk delivers; after the loop, the images put are the images the walk delivers.
\<close>

definition images_ok :: "walk_entry list \<Rightarrow> images_producer \<Rightarrow> bool" where
  "images_ok directory ps \<longleftrightarrow>
     (i_flag ps \<longleftrightarrow> i_pc ps = ProducerDone) \<and>
     (if i_pc ps = Putting then i_enqueued ps @ delivered (i_walk ps) = delivered directory
      else i_enqueued ps = delivered directory)"


subsection \<open>Java: the invariant of a run\<close>

text \<open>
  The images a run has still to finish: those of the batches not put yet, of the batches
  in the queue and of the batches the consumers hold.
\<close>

definition held :: "consumer list \<Rightarrow> addr list" where
  "held cs = concat (map c_batch cs)"

definition pend :: "java_run \<Rightarrow> addr list" where
  "pend rs = concat (p_rest rs) @ concat (queue rs) @ held (consumers rs)"

text \<open>
  Control: the batches not put yet are a suffix of the input; the flag is set exactly
  when the producer has returned; the producer leaves its loop with nothing left to put
  or through the \<^verbatim>\<open>catch\<close> block; a consumer reads the queue in the loop condition only
  after it has seen the flag, and leaves the loop only on an empty queue; a consumer
  outside \<^verbatim>\<open>processBatch\<close> holds no image; \<^verbatim>\<open>awaitTermination\<close> has returned
  \<^verbatim>\<open>true\<close> only on a terminated pool.
\<close>

definition ctl_ok :: "addr list list \<Rightarrow> nat \<Rightarrow> java_run \<Rightarrow> bool" where
  "ctl_ok bl0 n rs \<longleftrightarrow>
     length (consumers rs) = n \<and>
     (\<exists>pre. bl0 = pre @ p_rest rs) \<and>
     (isDoneProducing rs \<longleftrightarrow> p_pc rs = ProducerDone) \<and>
     (p_pc rs \<noteq> Putting \<longrightarrow> p_caught rs \<or> p_rest rs = []) \<and>
     (\<forall>i < length (consumers rs).
        (c_pc (consumers rs ! i) = AtQueueTest \<longrightarrow> isDoneProducing rs) \<and>
        (c_pc (consumers rs ! i) = ConsumerDone \<longrightarrow> isDoneProducing rs \<and> queue rs = []) \<and>
        (c_pc (consumers rs ! i) \<noteq> InProcessBatch \<longrightarrow> c_batch (consumers rs ! i) = [])) \<and>
     (awaited rs = Some Terminated \<longrightarrow> pool_terminated rs)"

text \<open>
  Memory, relative to the heap \<open>h0\<close> and the batches \<open>bl0\<close> the run started from: no
  image is pending twice; an image not yet taken by a consumer is as it was; the image a
  consumer works on is doubled up to the index of the inner loop; an image of the input
  that is no longer pending is doubled; everything else is as it was.
\<close>

definition mem_ok ::
  "(addr \<Rightarrow> float32 list) \<Rightarrow> addr list list \<Rightarrow> java_run \<Rightarrow> bool" where
  "mem_ok h0 bl0 rs \<longleftrightarrow>
     distinct (pend rs) \<and> set (pend rs) \<subseteq> set (concat bl0) \<and>
     (\<forall>a \<in> set (concat (p_rest rs)) \<union> set (concat (queue rs)). j_heap rs a = h0 a) \<and>
     (\<forall>i < length (consumers rs).
        case c_batch (consumers rs ! i) of
          [] \<Rightarrow> True
        | a # rest \<Rightarrow>
            c_i (consumers rs ! i) \<le> length (h0 a) \<and>
            j_heap rs a = map (\<lambda>e. 2 * e) (take (c_i (consumers rs ! i)) (h0 a))
                           @ drop (c_i (consumers rs ! i)) (h0 a) \<and>
            (\<forall>a' \<in> set rest. j_heap rs a' = h0 a')) \<and>
     (\<forall>a \<in> set (concat bl0) - set (pend rs). j_heap rs a = map (\<lambda>e. 2 * e) (h0 a)) \<and>
     (\<forall>a. a \<notin> set (concat bl0) \<longrightarrow> j_heap rs a = h0 a)"

definition java_inv ::
  "(addr \<Rightarrow> float32 list) \<Rightarrow> addr list list \<Rightarrow> nat \<Rightarrow> java_run \<Rightarrow> bool" where
  "java_inv h0 bl0 n rs \<longleftrightarrow> ctl_ok bl0 n rs \<and> mem_ok h0 bl0 rs"


text \<open>
  How far a run is from a terminated pool. The work left: the steps of the producer, the
  steps that take the batches it has not put and those in the queue, and the steps of
  \<^verbatim>\<open>processBatch\<close> on them (one per element, one per image, one to return). The control
  steps left: with a batch in the queue, those that bring the first consumer to
  \<^verbatim>\<open>poll\<close>; with an empty queue, those that bring every consumer out of its loop. The
  two are combined in lexicographic order.
\<close>

definition vec_w :: "(addr \<Rightarrow> float32 list) \<Rightarrow> addr list \<Rightarrow> nat" where
  "vec_w h0 b = (\<Sum>a\<leftarrow>b. 1 + length (h0 a))"

definition work_c :: "(addr \<Rightarrow> float32 list) \<Rightarrow> consumer \<Rightarrow> nat" where
  "work_c h0 c =
     (if c_pc c = InProcessBatch
      then (case c_batch c of
              [] \<Rightarrow> 1
            | a # rest \<Rightarrow> 2 + length (h0 a) - c_i c + vec_w h0 rest)
      else 0)"

definition work_left :: "(addr \<Rightarrow> float32 list) \<Rightarrow> java_run \<Rightarrow> nat" where
  "work_left h0 rs =
     (case p_pc rs of Putting \<Rightarrow> 2 | InFinally \<Rightarrow> 1 | ProducerDone \<Rightarrow> 0)
     + (\<Sum>b\<leftarrow>p_rest rs. 3 + vec_w h0 b)
     + (\<Sum>b\<leftarrow>queue rs. 2 + vec_w h0 b)
     + (\<Sum>c\<leftarrow>consumers rs. work_c h0 c)"

definition exit_dist :: "consumer \<Rightarrow> nat" where
  "exit_dist c =
     (case c_pc c of AtPoll \<Rightarrow> 3 | AtLoopTest \<Rightarrow> 2 | AtQueueTest \<Rightarrow> 1
      | InProcessBatch \<Rightarrow> 0 | ConsumerDone \<Rightarrow> 0)"

definition poll_dist :: "consumer \<Rightarrow> nat" where
  "poll_dist c =
     (case c_pc c of AtLoopTest \<Rightarrow> 2 | AtQueueTest \<Rightarrow> 1 | AtPoll \<Rightarrow> 0
      | InProcessBatch \<Rightarrow> 0 | ConsumerDone \<Rightarrow> 0)"

definition ctl_left :: "java_run \<Rightarrow> nat" where
  "ctl_left rs =
     (if queue rs \<noteq> [] then poll_dist (consumers rs ! 0)
      else (\<Sum>c\<leftarrow>consumers rs. exit_dist c))"

definition java_left :: "(addr \<Rightarrow> float32 list) \<Rightarrow> java_run \<Rightarrow> nat" where
  "java_left h0 rs = work_left h0 rs * (3 * length (consumers rs) + 3) + ctl_left rs"


subsection \<open>Concrete schedules\<close>

text \<open>
  A schedule for five images and batches of two: two goroutines, interleaved with each
  other and with the launching loop. Every vector has one element.
\<close>

definition demo_sched :: "go_event list" where
  "demo_sched = [Launcher, Worker 0, Launcher, Worker 1, Worker 0, Worker 0, Worker 1, Worker 1,
     Launcher, Worker 1, Worker 0, Worker 0, Worker 1, Worker 1, Worker 0, Worker 0, Worker 1,
     Worker 0, Launcher]"

text \<open>
  A schedule for the Java run of two one-image batches with a queue of capacity one and
  two consumers: each consumer takes one batch, and \<^verbatim>\<open>awaitTermination\<close> returns
  \<^verbatim>\<open>true\<close> at the end.
\<close>

definition demo_jsched :: "java_event list" where
  "demo_jsched = [Producer, Consumer 0, Consumer 0, Producer, Producer, Producer,
     Consumer 1, Consumer 1, Consumer 1, Consumer 0, Consumer 0, Consumer 0, Consumer 0, Consumer 0,
     Consumer 1, Consumer 1, Consumer 1, Consumer 1, Consumer 1, Await Terminated]"


section \<open>Properties of the transform\<close>

lemma fold_update_prefix:
  "n \<le> length v \<Longrightarrow>
     fold (\<lambda>i img. img[i := f (img ! i)]) [0..<n] v = map f (take n v) @ drop n v"
proof (induction n)
  case 0
  then show ?case by simp
next
  case (Suc n)
  then have n: "n < length v" by simp
  have "fold (\<lambda>i img. img[i := f (img ! i)]) [0..<Suc n] v
          = (map f (take n v) @ drop n v)[n := f ((map f (take n v) @ drop n v) ! n)]"
    using Suc by simp
  also have "\<dots> = map f (take n v) @ (drop n v)[0 := f (drop n v ! 0)]"
    using n by (simp add: list_update_append nth_append)
  also have "drop n v = v ! n # drop (Suc n) v"
    using n by (simp add: Cons_nth_drop_Suc)
  also have "map f (take n v) @ (v ! n # drop (Suc n) v)[0 := f ((v ! n # drop (Suc n) v) ! 0)]
          = map f (take (Suc n) v) @ drop (Suc n) v"
    using n by (simp add: take_Suc_conv_app_nth)
  finally show ?case .
qed

lemma SimulateImageProcessing_map:
  "SimulateImageProcessing v = map (\<lambda>e. 2 * e) v"
proof -
  have "SimulateImageProcessing v = map (\<lambda>e. e * 2) (take (length v) v) @ drop (length v) v"
    unfolding SimulateImageProcessing_def by (rule fold_update_prefix) simp
  then show ?thesis by (simp add: mult.commute)
qed

lemma processBatch_map: "processBatch b = map (map (\<lambda>e. 2 * e)) b"
proof -
  have "\<And>v::float32 list. fold (\<lambda>i img. img[i := img ! i * 2]) [0..<length v] v
          = map (\<lambda>e. 2 * e) v"
    using SimulateImageProcessing_map by (simp add: SimulateImageProcessing_def)
  then show ?thesis by (simp add: processBatch_def)
qed

lemma byte_mask: "(255::int) = mask 8"
  by (simp add: mask_eq_exp_minus_1)

lemma and_255_take_bit: "(x::int) AND 255 = take_bit 8 x"
  unfolding byte_mask by (simp add: take_bit_eq_mask)

lemma channel_range: "0 \<le> (x::int) AND 255 \<and> x AND 255 \<le> 255"
proof -
  have "take_bit 8 x < (2::int) ^ 8" by (rule take_bit_int_less_exp)
  then show ?thesis by (simp add: and_255_take_bit)
qed

lemma pack_red:
  assumes "0 \<le> r" "r \<le> 255" "0 \<le> g" "g \<le> 255" "0 \<le> b" "b \<le> (255::int)"
  shows "drop_bit 16 (push_bit 16 r OR push_bit 8 g OR b) AND 255 = r"
proof -
  have r: "take_bit 8 r = r" and g: "take_bit 8 g = g" and b: "take_bit 8 b = b"
    using assms by (simp_all add: take_bit_int_eq_self)
  have "drop_bit 16 (push_bit 16 (take_bit 8 r) OR push_bit 8 (take_bit 8 g) OR take_bit 8 b)
          AND mask 8 = take_bit 8 r"
    by (rule bit_eqI) (auto simp add: bit_simps)
  then show ?thesis unfolding byte_mask r g b .
qed

lemma pack_green:
  assumes "0 \<le> r" "r \<le> 255" "0 \<le> g" "g \<le> 255" "0 \<le> b" "b \<le> (255::int)"
  shows "drop_bit 8 (push_bit 16 r OR push_bit 8 g OR b) AND 255 = g"
proof -
  have r: "take_bit 8 r = r" and g: "take_bit 8 g = g" and b: "take_bit 8 b = b"
    using assms by (simp_all add: take_bit_int_eq_self)
  have "drop_bit 8 (push_bit 16 (take_bit 8 r) OR push_bit 8 (take_bit 8 g) OR take_bit 8 b)
          AND mask 8 = take_bit 8 g"
    by (rule bit_eqI) (auto simp add: bit_simps)
  then show ?thesis unfolding byte_mask r g b .
qed

lemma pack_blue:
  assumes "0 \<le> r" "r \<le> 255" "0 \<le> g" "g \<le> 255" "0 \<le> b" "b \<le> (255::int)"
  shows "(push_bit 16 r OR push_bit 8 g OR b) AND 255 = b"
proof -
  have r: "take_bit 8 r = r" and g: "take_bit 8 g = g" and b: "take_bit 8 b = b"
    using assms by (simp_all add: take_bit_int_eq_self)
  have "(push_bit 16 (take_bit 8 r) OR push_bit 8 (take_bit 8 g) OR take_bit 8 b)
          AND mask 8 = take_bit 8 b"
    by (rule bit_eqI) (auto simp add: bit_simps)
  then show ?thesis unfolding byte_mask r g b .
qed

lemma clamped_range: "0 \<le> (c::int) \<Longrightarrow> 0 \<le> min (c * 2) 255 \<and> min (c * 2) 255 \<le> 255"
  by simp

lemma processPixel_channels:
  "red (processPixel rgb) = min (2 * red rgb) 255 \<and>
   green (processPixel rgb) = min (2 * green rgb) 255 \<and>
   blue (processPixel rgb) = min (2 * blue rgb) 255"
proof -
  define r where "r = min ((drop_bit 16 rgb AND 255) * 2) 255"
  define g where "g = min ((drop_bit 8 rgb AND 255) * 2) 255"
  define b where "b = min ((rgb AND 255) * 2) 255"
  have rr: "0 \<le> r \<and> r \<le> 255" unfolding r_def using channel_range by (intro clamped_range) simp
  have gr: "0 \<le> g \<and> g \<le> 255" unfolding g_def using channel_range by (intro clamped_range) simp
  have br: "0 \<le> b \<and> b \<le> 255" unfolding b_def using channel_range by (intro clamped_range) simp
  have p: "processPixel rgb = push_bit 16 r OR push_bit 8 g OR b"
    by (simp add: processPixel_def Let_def r_def g_def b_def)
  have "red (processPixel rgb) = r"
    unfolding p red_def by (rule pack_red) (use rr gr br in auto)
  moreover have "green (processPixel rgb) = g"
    unfolding p green_def by (rule pack_green) (use rr gr br in auto)
  moreover have "blue (processPixel rgb) = b"
    unfolding p blue_def by (rule pack_blue) (use rr gr br in auto)
  ultimately show ?thesis
    by (simp add: r_def g_def b_def red_def green_def blue_def mult.commute)
qed

lemma min_twice: "0 \<le> (c::int) \<Longrightarrow> min (2 * min (2 * c) 255) 255 = min (4 * c) 255"
  by (simp add: min_def)

subsection \<open>Doubling a binary32 value\<close>

lemma exp_cases:
  fixes e :: "8 word"
  shows "e < 254 \<longleftrightarrow> unat e < 254" "e < 253 \<longleftrightarrow> unat e < 253" "e = 0 \<longleftrightarrow> unat e = 0"
    "e = 255 \<longleftrightarrow> unat e = 255" "e = 254 \<longleftrightarrow> unat e = 254"
proof -
  show "e < 254 \<longleftrightarrow> unat e < 254" "e < 253 \<longleftrightarrow> unat e < 253"
    by (simp_all add: word_less_nat_alt)
  show "e = 0 \<longleftrightarrow> unat e = 0" by (simp add: unat_eq_0)
  show "e = 255 \<longleftrightarrow> unat e = 255" using word_unat_eq_iff [of e 255] by simp
  show "e = 254 \<longleftrightarrow> unat e = 254" using word_unat_eq_iff [of e 254] by simp
qed

lemma exp_succ:
  fixes e :: "8 word"
  assumes "unat e < 255"
  shows "unat (e + 1) = unat e + 1"
  using assms by (simp add: unat_word_ariths)

lemma frac_bound:
  fixes f :: "23 word"
  shows "unat f < 2 ^ 23"
  using unsigned_less [of f, where ?'a = nat] by simp

lemma frac_double:
  fixes f :: "23 word"
  shows "unat (f * 2) = (if f < 0x400000 then 2 * unat f else 2 * unat f - 2 ^ 23)"
proof -
  have b: "unat f < 2 ^ 23" by (rule frac_bound)
  have m: "unat (f * 2) = (unat f * 2) mod 2 ^ 23" by (simp add: unat_word_ariths)
  have c: "f < 0x400000 \<longleftrightarrow> unat f < 2 ^ 22" by (simp add: word_less_nat_alt)
  show ?thesis
  proof (cases "unat f < 2 ^ 22")
    case True
    then have "unat f * 2 < 2 ^ 23" by simp
    then have "(unat f * 2) mod 2 ^ 23 = unat f * 2" by (rule mod_less)
    then show ?thesis using True m c by simp
  next
    case False
    then have "2 ^ 23 \<le> unat f * 2" "unat f * 2 - 2 ^ 23 < 2 ^ 23" using b by simp_all
    then have "(unat f * 2) mod 2 ^ 23 = unat f * 2 - 2 ^ 23"
      by (metis le_mod_geq mod_less)
    then show ?thesis using False m c by (simp add: mult.commute)
  qed
qed

lemma frac_double_small:
  fixes f :: "23 word"
  assumes "f < 0x400000"
  shows "unat (f * 2) = 2 * unat f"
  using assms by (simp only: frac_double if_True)

lemma frac_double_large:
  fixes f :: "23 word"
  assumes "\<not> f < 0x400000"
  shows "unat (f * 2) + 2 ^ 23 = 2 * unat f"
proof -
  have "2 ^ 22 \<le> unat f" using assms by (simp add: word_less_nat_alt)
  then have "2 ^ 23 \<le> 2 * unat f" by simp
  moreover have "unat (f * 2) = 2 * unat f - 2 ^ 23" using assms by (simp only: frac_double if_False)
  ultimately show ?thesis by (simp only: le_add_diff_inverse2)
qed

lemma magnitude_subnormal:
  "magnitude (x\<lparr>b_exp := 0, b_frac := f\<rparr>) = unat f * 2"
  by (simp add: magnitude_def)

lemma magnitude_normal:
  "e \<noteq> 0 \<Longrightarrow> magnitude (x\<lparr>b_exp := e, b_frac := f\<rparr>) = (2 ^ 23 + unat f) * 2 ^ unat e"
  by (simp add: magnitude_def)

lemma magnitude_mul2:
  assumes "b_exp x < 254"
  shows "magnitude (float32_mul2 x) = 2 * magnitude x"
proof (cases "b_exp x = 0")
  case True
  have m: "magnitude x = unat (b_frac x) * 2" using True by (simp add: magnitude_def)
  have ne: "b_exp x \<noteq> 255" "b_exp x \<noteq> 254" using True by simp_all
  show ?thesis
  proof (cases "b_frac x < 0x400000")
    case l: True
    have st: "float32_mul2 x = x\<lparr>b_exp := 0, b_frac := b_frac x * 2\<rparr>"
      unfolding float32_mul2_def using True l by simp
    show ?thesis unfolding st magnitude_subnormal m frac_double_small [OF l] by simp
  next
    case False
    have st: "float32_mul2 x = x\<lparr>b_exp := 1, b_frac := b_frac x * 2\<rparr>"
      unfolding float32_mul2_def using True False by simp
    have "magnitude (x\<lparr>b_exp := 1, b_frac := b_frac x * 2\<rparr>)
        = (2 ^ 23 + unat (b_frac x * 2)) * 2 ^ unat (1::8 word)"
      by (rule magnitude_normal) simp
    also have "\<dots> = (unat (b_frac x * 2) + 2 ^ 23) * 2" by simp
    also have "\<dots> = 2 * unat (b_frac x) * 2" unfolding frac_double_large [OF False] ..
    finally show ?thesis unfolding st m by simp
  qed
next
  case False
  have u: "unat (b_exp x) < 254" using assms by (simp add: exp_cases)
  then have s: "unat (b_exp x + 1) = unat (b_exp x) + 1" by (simp add: exp_succ)
  then have nz: "b_exp x + 1 \<noteq> 0" by (metis Suc_eq_plus1 nat.simps(3) unat_0)
  have ne: "b_exp x \<noteq> 255" "b_exp x \<noteq> 254" using u by (auto simp add: exp_cases)
  have st: "float32_mul2 x = x\<lparr>b_exp := b_exp x + 1\<rparr>"
    unfolding float32_mul2_def using False ne by (simp only: if_False)
  have g: "magnitude (x\<lparr>b_exp := e'\<rparr>) = (2 ^ 23 + unat (b_frac x)) * 2 ^ unat e'"
    if "e' \<noteq> 0" for e'
    using that by (simp add: magnitude_def)
  have "magnitude (x\<lparr>b_exp := b_exp x + 1\<rparr>)
      = (2 ^ 23 + unat (b_frac x)) * 2 ^ (unat (b_exp x) + 1)"
    unfolding g [OF nz] s ..
  also have "\<dots> = 2 * ((2 ^ 23 + unat (b_frac x)) * 2 ^ unat (b_exp x))"
    by (simp only: power_add power_one_right mult.assoc mult.left_commute mult.commute)
  also have "\<dots> = 2 * magnitude x" using False by (simp only: magnitude_def if_False)
  finally show ?thesis unfolding st .
qed


lemma float32_mul2_sign: "b_sign (float32_mul2 x) = b_sign x"
  by (simp add: float32_mul2_def)

lemma float32_mul2_exact:
  assumes "b_exp x < 254"
  shows "valof (float32_mul2 x) = 2 * valof x"
  unfolding valof_def float32_mul2_sign magnitude_mul2 [OF assms] by simp

lemma float32_mul2_exp:
  assumes "b_exp x < 253"
  shows "b_exp (float32_mul2 x) < 254"
proof (cases "b_exp x = 0")
  case True
  then have "b_exp (float32_mul2 x) = 0 \<or> b_exp (float32_mul2 x) = 1"
    by (simp add: float32_mul2_def)
  then show ?thesis by auto
next
  case False
  have u: "unat (b_exp x) < 253" using assms by (simp add: exp_cases)
  then have s: "unat (b_exp x + 1) = unat (b_exp x) + 1" by (simp add: exp_succ)
  have ne: "b_exp x \<noteq> 255" "b_exp x \<noteq> 254" using u by (auto simp add: exp_cases)
  have st: "float32_mul2 x = x\<lparr>b_exp := b_exp x + 1\<rparr>"
    unfolding float32_mul2_def using False ne by (simp only: if_False)
  have "unat (b_exp (float32_mul2 x)) < 254" unfolding st using s u by simp
  then show ?thesis by (simp only: exp_cases)
qed

lemma float32_mul2_twice:
  assumes "b_exp x < 253"
  shows "valof (float32_mul2 (float32_mul2 x)) = 4 * valof x"
proof -
  have "unat (b_exp x) < 254" using assms by (simp add: exp_cases)
  then have "b_exp x < 254" by (simp only: exp_cases)
  then have "valof (float32_mul2 x) = 2 * valof x" by (rule float32_mul2_exact)
  moreover have "valof (float32_mul2 (float32_mul2 x)) = 2 * valof (float32_mul2 x)"
    using float32_mul2_exp [OF assms] by (rule float32_mul2_exact)
  ultimately show ?thesis by simp
qed

lemma float32_mul2_overflow:
  assumes "b_exp x = 254"
  shows "is_infinity (float32_mul2 x) \<and> b_sign (float32_mul2 x) = b_sign x"
  using assms by (simp add: float32_mul2_def is_infinity_def)

text \<open>The exponent field and the magnitude.\<close>

lemma pow_less_iff: "(2::nat) ^ a < 2 ^ b \<longleftrightarrow> a < b"
  by simp

lemma magnitude_less_iff:
  assumes "0 < k"
  shows "magnitude x < 2 ^ (23 + k) \<longleftrightarrow> unat (b_exp x) < k"
proof (cases "b_exp x = 0")
  case True
  have "unat (b_frac x) * 2 < 2 ^ 23 * 2" using frac_bound [of "b_frac x"] by simp
  also have "\<dots> = (2::nat) ^ (23 + 1)" by simp
  also have "\<dots> \<le> 2 ^ (23 + k)" using assms by (intro power_increasing) simp_all
  finally have "magnitude x < 2 ^ (23 + k)" using True by (simp add: magnitude_def)
  moreover have "unat (b_exp x) < k" using True assms by simp
  ultimately show ?thesis by simp
next
  case False
  let ?e = "unat (b_exp x)"
  let ?f = "unat (b_frac x)"
  have m: "magnitude x = (2 ^ 23 + ?f) * 2 ^ ?e" using False by (simp only: magnitude_def if_False)
  show ?thesis
  proof (cases "?e < k")
    case True
    have "(2 ^ 23 + ?f) * 2 ^ ?e < (2 ^ 23 + 2 ^ 23) * 2 ^ ?e"
      using frac_bound [of "b_frac x"] by (intro mult_strict_right_mono) simp_all
    also have "\<dots> = 2 ^ (23 + (?e + 1))" by (simp only: power_add) simp
    also have "\<dots> \<le> 2 ^ (23 + k)" using True by (intro power_increasing) simp_all
    finally show ?thesis using True m by simp
  next
    case False
    then have "(2::nat) ^ (23 + k) \<le> 2 ^ (23 + ?e)" by (intro power_increasing) simp_all
    also have "\<dots> = 2 ^ 23 * 2 ^ ?e" by (simp only: power_add)
    also have "\<dots> \<le> (2 ^ 23 + ?f) * 2 ^ ?e" by (intro mult_right_mono) simp_all
    finally show ?thesis using False m by simp
  qed
qed

lemma valof_abs: "\<bar>valof x\<bar> = real (magnitude x) / 2 ^ 150"
proof -
  have "\<bar>valof x\<bar> = \<bar>if b_sign x then - 1 else (1::real)\<bar> * \<bar>real (magnitude x)\<bar> / \<bar>2 ^ 150\<bar>"
    unfolding valof_def by (simp only: abs_mult abs_divide)
  also have "\<dots> = real (magnitude x) / 2 ^ 150" by simp
  finally show ?thesis .
qed

lemma valof_less_iff:
  assumes "0 < k"
  shows "\<bar>valof x\<bar> * 2 ^ 127 < 2 ^ k \<longleftrightarrow> unat (b_exp x) < k"
proof -
  have "\<bar>valof x\<bar> * 2 ^ 127 = real (magnitude x) / 2 ^ 23"
  proof -
    have "(2::real) ^ 150 = 2 ^ 23 * 2 ^ 127" by (simp only: power_add [symmetric]) simp
    then show ?thesis unfolding valof_abs by simp
  qed
  also have "\<dots> < 2 ^ k \<longleftrightarrow> real (magnitude x) < 2 ^ k * 2 ^ 23"
    by (simp only: pos_divide_less_eq zero_less_power zero_less_numeral)
  also have "\<dots> \<longleftrightarrow> real (magnitude x) < real (2 ^ (23 + k))"
    by (simp add: power_add mult.commute)
  also have "\<dots> \<longleftrightarrow> magnitude x < 2 ^ (23 + k)" by (simp only: of_nat_less_iff)
  also have "\<dots> \<longleftrightarrow> unat (b_exp x) < k" using assms by (rule magnitude_less_iff)
  finally show ?thesis .
qed

lemma exp_254_iff: "b_exp x < 254 \<longleftrightarrow> \<bar>valof x\<bar> < 2 ^ 127"
proof -
  have "\<bar>valof x\<bar> < 2 ^ 127 \<longleftrightarrow> \<bar>valof x\<bar> * 2 ^ 127 < 2 ^ 127 * 2 ^ 127" by simp
  also have "(2::real) ^ 127 * 2 ^ 127 = 2 ^ 254" by (simp only: power_add [symmetric]) simp
  also have "\<bar>valof x\<bar> * 2 ^ 127 < 2 ^ 254 \<longleftrightarrow> unat (b_exp x) < 254"
    by (rule valof_less_iff) simp
  finally show ?thesis by (simp only: exp_cases)
qed

lemma exp_253_iff: "b_exp x < 253 \<longleftrightarrow> \<bar>valof x\<bar> < 2 ^ 126"
proof -
  have "\<bar>valof x\<bar> < 2 ^ 126 \<longleftrightarrow> \<bar>valof x\<bar> * 2 ^ 127 < 2 ^ 126 * 2 ^ 127" by simp
  also have "(2::real) ^ 126 * 2 ^ 127 = 2 ^ 253" by (simp only: power_add [symmetric]) simp
  also have "\<bar>valof x\<bar> * 2 ^ 127 < 2 ^ 253 \<longleftrightarrow> unat (b_exp x) < 253"
    by (rule valof_less_iff) simp
  finally show ?thesis by (simp only: exp_cases)
qed

lemma SimulateImageProcessing_binary32_map:
  "SimulateImageProcessing_binary32 v = map float32_mul2 v"
proof -
  have "SimulateImageProcessing_binary32 v
      = map float32_mul2 (take (length v) v) @ drop (length v) v"
    unfolding SimulateImageProcessing_binary32_def by (rule fold_update_prefix) simp
  then show ?thesis by simp
qed

lemma processBatch_binary32_map: "processBatch_binary32 b = map (map float32_mul2) b"
proof -
  have "\<And>v. fold (\<lambda>i img. img[i := float32_mul2 (img ! i)]) [0..<length v] v
          = map float32_mul2 v"
    using SimulateImageProcessing_binary32_map by (simp add: SimulateImageProcessing_binary32_def)
  then show ?thesis by (simp add: processBatch_binary32_def)
qed

lemma valof_transform:
  assumes "\<forall>x \<in> set v. b_exp x < 254"
  shows "map valof (map float32_mul2 v) = map (\<lambda>e. 2 * e) (map valof v)"
  using assms by (simp add: float32_mul2_exact)

lemma valof_transform_twice:
  assumes "\<forall>x \<in> set v. b_exp x < 253"
  shows "map valof (map float32_mul2 (map float32_mul2 v)) = map (\<lambda>e. 4 * e) (map valof v)"
  using assms by (simp add: float32_mul2_twice)


lemma valof_SimulateImageProcessing:
  assumes "\<forall>x \<in> set v. \<bar>valof x\<bar> < 2 ^ 127"
  shows "map valof (SimulateImageProcessing_binary32 v) = SimulateImageProcessing (map valof v)"
proof -
  have "\<forall>x \<in> set v. b_exp x < 254" using assms by (simp add: exp_254_iff)
  then show ?thesis
    unfolding SimulateImageProcessing_binary32_map SimulateImageProcessing_map
    by (rule valof_transform)
qed

lemma valof_processBatch:
  assumes "\<forall>v \<in> set b. \<forall>x \<in> set v. \<bar>valof x\<bar> < 2 ^ 127"
  shows "map (map valof) (processBatch_binary32 b) = processBatch (map (map valof) b)"
proof -
  have "map valof (map float32_mul2 v) = map (\<lambda>e. 2 * e) (map valof v)" if "v \<in> set b" for v
  proof (rule valof_transform)
    show "\<forall>x \<in> set v. b_exp x < 254" using assms that by (simp add: exp_254_iff)
  qed
  then show ?thesis unfolding processBatch_binary32_map processBatch_map by simp
qed

lemma valof_one: "valof \<lparr>b_sign = False, b_exp = 127, b_frac = 0\<rparr> = 1"
  by (simp add: valof_def magnitude_def)


text \<open>
  Claim C3, as the code has it. On the binary32 values that the harnesses hold,
  \<^verbatim>\<open>SimulateImageProcessing\<close> (Go) and \<^verbatim>\<open>processBatch\<close> (Java CIFAR) apply the
  machine's product by 2 to every element. An element of magnitude below \<open>2 ^ 127\<close>
  becomes exactly twice itself, with no clamping, and an element of magnitude below
  \<open>2 ^ 126\<close> becomes exactly four times itself after two applications; on such vectors
  the transforms on real numbers used in the rest of this theory give the same values.
  A finite element of magnitude \<open>2 ^ 127\<close> or more overflows to the infinity of its sign;
  an infinity stays an infinity and a NaN stays a NaN. The Java Tiny ImageNet transform
  (\<^verbatim>\<open>processImage\<close>) works on 8-bit channels and saturates: a channel \<open>c\<close> becomes
  \<open>min (2 * c) 255\<close>, and after two applications \<open>min (4 * c) 255\<close>.
\<close>

theorem Transform_doubles_and_pixels_saturate:
  "SimulateImageProcessing_binary32 v = map float32_mul2 v \<and>
   processBatch_binary32 b = map (map float32_mul2) b \<and>
   (\<bar>valof x\<bar> < 2 ^ 127 \<longleftrightarrow> b_exp x < 254) \<and>
   (\<bar>valof x\<bar> < 2 ^ 126 \<longleftrightarrow> b_exp x < 253) \<and>
   (\<bar>valof x\<bar> < 2 ^ 127 \<longrightarrow> valof (float32_mul2 x) = 2 * valof x) \<and>
   (\<bar>valof x\<bar> < 2 ^ 126 \<longrightarrow> valof (float32_mul2 (float32_mul2 x)) = 4 * valof x) \<and>
   (b_exp x = 254 \<longrightarrow> is_infinity (float32_mul2 x) \<and> b_sign (float32_mul2 x) = b_sign x) \<and>
   (b_exp x = 255 \<longrightarrow>
      b_exp (float32_mul2 x) = 255 \<and> (b_frac (float32_mul2 x) = 0 \<longleftrightarrow> b_frac x = 0)) \<and>
   ((\<forall>x \<in> set v. \<bar>valof x\<bar> < 2 ^ 127) \<longrightarrow>
      map valof (SimulateImageProcessing_binary32 v) = SimulateImageProcessing (map valof v) \<and>
      map valof (SimulateImageProcessing_binary32 v) = map (\<lambda>e. 2 * e) (map valof v)) \<and>
   ((\<forall>x \<in> set v. \<bar>valof x\<bar> < 2 ^ 126) \<longrightarrow>
      map valof (SimulateImageProcessing_binary32 (SimulateImageProcessing_binary32 v))
        = map (\<lambda>e. 4 * e) (map valof v)) \<and>
   ((\<forall>v \<in> set b. \<forall>x \<in> set v. \<bar>valof x\<bar> < 2 ^ 127) \<longrightarrow>
      map (map valof) (processBatch_binary32 b) = processBatch (map (map valof) b)) \<and>
   red (processPixel rgb) = min (2 * red rgb) 255 \<and>
   green (processPixel rgb) = min (2 * green rgb) 255 \<and>
   blue (processPixel rgb) = min (2 * blue rgb) 255 \<and>
   red (processPixel (processPixel rgb)) = min (4 * red rgb) 255 \<and>
   green (processPixel (processPixel rgb)) = min (4 * green rgb) 255 \<and>
   blue (processPixel (processPixel rgb)) = min (4 * blue rgb) 255"
proof -
  have r0: "0 \<le> red rgb" and g0: "0 \<le> green rgb" and b0: "0 \<le> blue rgb"
    using channel_range by (simp_all add: red_def green_def blue_def)
  have twice: "red (processPixel (processPixel rgb)) = min (4 * red rgb) 255"
       "green (processPixel (processPixel rgb)) = min (4 * green rgb) 255"
       "blue (processPixel (processPixel rgb)) = min (4 * blue rgb) 255"
    using r0 g0 b0 processPixel_channels [of rgb] processPixel_channels [of "processPixel rgb"]
    by (simp_all add: min_twice)
  have once: "red (processPixel rgb) = min (2 * red rgb) 255"
       "green (processPixel rgb) = min (2 * green rgb) 255"
       "blue (processPixel rgb) = min (2 * blue rgb) 255"
    using processPixel_channels [of rgb] by simp_all
  have e1: "valof (float32_mul2 x) = 2 * valof x" if "\<bar>valof x\<bar> < 2 ^ 127"
    using that by (intro float32_mul2_exact) (simp add: exp_254_iff)
  have e2: "valof (float32_mul2 (float32_mul2 x)) = 4 * valof x" if "\<bar>valof x\<bar> < 2 ^ 126"
    using that by (intro float32_mul2_twice) (simp add: exp_253_iff)
  have l1: "map valof (SimulateImageProcessing_binary32 v) = SimulateImageProcessing (map valof v)"
       "map valof (SimulateImageProcessing_binary32 v) = map (\<lambda>e. 2 * e) (map valof v)"
    if "\<forall>x \<in> set v. \<bar>valof x\<bar> < 2 ^ 127"
    using valof_SimulateImageProcessing [OF that] by (simp_all add: SimulateImageProcessing_map)
  have l2: "map valof (SimulateImageProcessing_binary32 (SimulateImageProcessing_binary32 v))
        = map (\<lambda>e. 4 * e) (map valof v)"
    if "\<forall>x \<in> set v. \<bar>valof x\<bar> < 2 ^ 126"
    unfolding SimulateImageProcessing_binary32_map
    using that by (intro valof_transform_twice) (simp add: exp_253_iff)
  show ?thesis
  proof (intro conjI impI)
    show "SimulateImageProcessing_binary32 v = map float32_mul2 v"
      by (rule SimulateImageProcessing_binary32_map)
    show "processBatch_binary32 b = map (map float32_mul2) b"
      by (rule processBatch_binary32_map)
    show "\<bar>valof x\<bar> < 2 ^ 127 \<longleftrightarrow> b_exp x < 254" by (simp add: exp_254_iff)
    show "\<bar>valof x\<bar> < 2 ^ 126 \<longleftrightarrow> b_exp x < 253" by (simp add: exp_253_iff)
    show "valof (float32_mul2 x) = 2 * valof x" if "\<bar>valof x\<bar> < 2 ^ 127"
      using that by (rule e1)
    show "valof (float32_mul2 (float32_mul2 x)) = 4 * valof x" if "\<bar>valof x\<bar> < 2 ^ 126"
      using that by (rule e2)
    show "is_infinity (float32_mul2 x)" if "b_exp x = 254"
      using float32_mul2_overflow [OF that] by simp
    show "b_sign (float32_mul2 x) = b_sign x" by (rule float32_mul2_sign)
    show "b_exp (float32_mul2 x) = 255" if "b_exp x = 255"
      using that by (simp add: float32_mul2_def)
    show "b_frac (float32_mul2 x) = 0 \<longleftrightarrow> b_frac x = 0" if "b_exp x = 255"
      using that by (simp add: float32_mul2_def or_eq_0_iff)
    show "map valof (SimulateImageProcessing_binary32 v) = SimulateImageProcessing (map valof v)"
      if "\<forall>x \<in> set v. \<bar>valof x\<bar> < 2 ^ 127" using that by (rule l1)
    show "map valof (SimulateImageProcessing_binary32 v) = map (\<lambda>e. 2 * e) (map valof v)"
      if "\<forall>x \<in> set v. \<bar>valof x\<bar> < 2 ^ 127" using that by (rule l1)
    show "map valof (SimulateImageProcessing_binary32 (SimulateImageProcessing_binary32 v))
        = map (\<lambda>e. 4 * e) (map valof v)"
      if "\<forall>x \<in> set v. \<bar>valof x\<bar> < 2 ^ 126" using that by (rule l2)
    show "map (map valof) (processBatch_binary32 b) = processBatch (map (map valof) b)"
      if "\<forall>v \<in> set b. \<forall>x \<in> set v. \<bar>valof x\<bar> < 2 ^ 127"
      using that by (rule valof_processBatch)
  qed (rule once twice)+
qed

text \<open>The witness: the value 1 becomes 2 and then 4.\<close>

theorem Transform_doubles_and_pixels_saturate_witness:
  "\<bar>valof \<lparr>b_sign = False, b_exp = 127, b_frac = 0\<rparr>\<bar> < 2 ^ 126 \<and>
   valof \<lparr>b_sign = False, b_exp = 127, b_frac = 0\<rparr> = 1 \<and>
   valof (float32_mul2 \<lparr>b_sign = False, b_exp = 127, b_frac = 0\<rparr>) = 2 \<and>
   valof (float32_mul2 (float32_mul2 \<lparr>b_sign = False, b_exp = 127, b_frac = 0\<rparr>)) = 4 \<and>
   map valof (SimulateImageProcessing_binary32 [\<lparr>b_sign = False, b_exp = 127, b_frac = 0\<rparr>]) = [2] \<and>
   map valof (SimulateImageProcessing_binary32 (SimulateImageProcessing_binary32
        [\<lparr>b_sign = False, b_exp = 127, b_frac = 0\<rparr>])) = [4] \<and>
   map (map valof) (processBatch_binary32 [[\<lparr>b_sign = False, b_exp = 127, b_frac = 0\<rparr>]])
     = processBatch [[1]]"
proof -
  let ?one = "\<lparr>b_sign = False, b_exp = 127, b_frac = 0\<rparr>"
  note w = Transform_doubles_and_pixels_saturate [where x = ?one and v = "[?one]" and b = "[[?one]]"]
  have s6: "\<bar>valof ?one\<bar> < 2 ^ 126" and s7: "\<bar>valof ?one\<bar> < 2 ^ 127"
    unfolding valof_one by simp_all
  have v6: "\<forall>x \<in> set [?one]. \<bar>valof x\<bar> < 2 ^ 126" and v7: "\<forall>x \<in> set [?one]. \<bar>valof x\<bar> < 2 ^ 127"
    using s6 s7 by simp_all
  have b7: "\<forall>v \<in> set [[?one]]. \<forall>x \<in> set v. \<bar>valof x\<bar> < 2 ^ 127" using s7 by simp
  note c = w [THEN conjunct2, THEN conjunct2, THEN conjunct2, THEN conjunct2]
  have "valof (float32_mul2 ?one) = 2 * valof ?one"
    using c [THEN conjunct1, rule_format, OF s7] .
  moreover have "valof (float32_mul2 (float32_mul2 ?one)) = 4 * valof ?one"
    using c [THEN conjunct2, THEN conjunct1, rule_format, OF s6] .
  moreover note d = c [THEN conjunct2, THEN conjunct2, THEN conjunct2, THEN conjunct2]
  have "map valof (SimulateImageProcessing_binary32 [?one]) = map (\<lambda>e. 2 * e) (map valof [?one])"
    using d [THEN conjunct1, THEN mp, OF v7, THEN conjunct2] .
  moreover have "map valof (SimulateImageProcessing_binary32 (SimulateImageProcessing_binary32 [?one]))
      = map (\<lambda>e. 4 * e) (map valof [?one])"
    using d [THEN conjunct2, THEN conjunct1, THEN mp, OF v6] .
  moreover have "map (map valof) (processBatch_binary32 [[?one]]) = processBatch (map (map valof) [[?one]])"
    using d [THEN conjunct2, THEN conjunct2, THEN conjunct1, THEN mp, OF b7] .
  ultimately show ?thesis using s6 by (simp add: valof_one)
qed

text \<open>
  Claim C3 as the specification states it: every element of every vector would become
  exactly twice itself, with no saturation. The largest finite binary32 value,
  \<open>(2 ^ 24 - 1) * 2 ^ 104\<close>, becomes the positive infinity; and in the Tiny ImageNet
  transform a channel of 200 saturates at 255 instead of becoming 400.
\<close>

theorem Transform_overflows_and_clamps_counterexample:
  "float32_mul2 \<lparr>b_sign = False, b_exp = 254, b_frac = 0x7FFFFF\<rparr>
     = \<lparr>b_sign = False, b_exp = 255, b_frac = 0\<rparr> \<and>
   is_infinity \<lparr>b_sign = False, b_exp = 255, b_frac = 0\<rparr> \<and>
   SimulateImageProcessing_binary32 [\<lparr>b_sign = False, b_exp = 254, b_frac = 0x7FFFFF\<rparr>]
     = [\<lparr>b_sign = False, b_exp = 255, b_frac = 0\<rparr>] \<and>
   valof \<lparr>b_sign = False, b_exp = 254, b_frac = 0x7FFFFF\<rparr> = (2 ^ 24 - 1) * 2 ^ 104 \<and>
   red (processPixel 0xC8C8C8) = 255 \<and> 2 * red 0xC8C8C8 = 400 \<and>
   processImage [[0xC8C8C8]] = [[0xFFFFFF]]"
  by (simp add: SimulateImageProcessing_binary32_def float32_mul2_def is_infinity_def
      valof_def magnitude_def processImage_def processPixel_def red_def Let_def)

section \<open>The batcher and the memory usage\<close>

text \<open>
  Claim C7 at a run whose heap shrank: with 2000 bytes allocated before the run and 1000
  after it, the Go harnesses record 18446744073709550616 bytes, where the claim says
  -1000.
\<close>

theorem memoryUsage_go_wraps:
  "memoryUsage_go_value 2000 1000 = 18446744073709550616"
  by (simp add: memoryUsage_go_value_def memoryUsage_go_def)

lemma memoryUsage_go_mod:
  "memoryUsage_go_value b a = (uint a - uint b) mod 2 ^ 64"
  by (simp add: memoryUsage_go_value_def memoryUsage_go_def uint_word_arith_bintrs take_bit_eq_mod)

lemma memoryUsage_java_signed:
  assumes "0 \<le> sint b" "0 \<le> sint a"
  shows "memoryUsage_java_value b a = sint a - sint b"
proof -
  have "sint (a - b) = signed_take_bit 63 (sint a - sint b)"
    by (simp add: sint_word_ariths)
  moreover have "sint a < 2 ^ 63" "sint b < 2 ^ 63"
    using sint_lt [of a] sint_lt [of b] by simp_all
  ultimately show ?thesis
    using assms
    by (simp add: memoryUsage_java_value_def memoryUsage_java_def signed_take_bit_int_eq_self)
qed

lemma memoryUsage_java_negative: "memoryUsage_java_value 2000 1000 = -1000"
  by (simp add: memoryUsage_java_value_def memoryUsage_java_def)

lemma make_batch_ok:
  "i * bs + bs \<le> ni \<Longrightarrow> i * bs + bs \<le> nl \<Longrightarrow> make_batch bs ni nl i = Inr (nth_batch bs i)"
  by (simp add: make_batch_def slice_expr_def nth_batch_def Let_def)

lemma batch_loop_ok:
  "(\<And>i. i \<in> set js \<Longrightarrow> i * bs + bs \<le> ni \<and> i * bs + bs \<le> nl) \<Longrightarrow>
     batch_loop bs ni nl js = Inr (map (nth_batch bs) js)"
  by (induction js) (simp_all add: make_batch_ok)

lemma full_batch_fits: "i < n div bs \<Longrightarrow> i * bs + bs \<le> (n::nat)"
proof -
  assume "i < n div bs"
  then have "Suc i \<le> n div bs" by simp
  then have "Suc i * bs \<le> (n div bs) * bs" by (rule mult_le_mono1)
  also have "\<dots> \<le> n" by simp
  finally show ?thesis by simp
qed

lemma RunProcessingTask_batches_closed:
  assumes "0 < bs" "length images \<le> length labels"
  shows "RunProcessingTask_batches bs images labels
           = Inr (map (nth_batch bs) [0..<length images div bs])"
proof -
  have "batch_loop bs (length images) (length labels) [0..<length images div bs]
          = Inr (map (nth_batch bs) [0..<length images div bs])"
  proof (rule batch_loop_ok)
    fix i assume "i \<in> set [0..<length images div bs]"
    then have "i * bs + bs \<le> length images" by (simp add: full_batch_fits)
    with assms show "i * bs + bs \<le> length images \<and> i * bs + bs \<le> length labels" by simp
  qed
  with assms show ?thesis by (simp add: RunProcessingTask_batches_def Let_def)
qed

lemma batch_items_nth_batch:
  "batch_items images labels (nth_batch bs i) = take bs (drop (i * bs) (zip images labels))"
  by (simp add: batch_items_def nth_batch_def slice_view_def take_zip drop_zip)

lemma concat_chunks: "concat (map (\<lambda>i. take bs (drop (i * bs) xs)) [0..<n]) = take (n * bs) xs"
proof (induction n)
  case 0
  then show ?case by simp
next
  case (Suc n)
  have "take (n * bs + bs) xs = take (n * bs) xs @ take bs (drop (n * bs) xs)"
    by (rule take_add)
  moreover have "Suc n * bs = n * bs + bs" by simp
  ultimately have "take (Suc n * bs) xs = take (n * bs) xs @ take bs (drop (n * bs) xs)"
    by metis
  with Suc show ?case by simp
qed


lemma Go_batcher:
  assumes "0 < bs" and "length labels = length images"
  shows "\<exists>batches.
      RunProcessingTask_batches bs images labels = Inr batches \<and>
      length batches = length images div bs \<and>
      (\<forall>i < length images div bs.
          batch_items images labels (batches ! i) = take bs (drop (i * bs) (zip images labels)) \<and>
          length (batch_items images labels (batches ! i)) = bs \<and>
          s_off (Images (batches ! i)) + s_len (Images (batches ! i)) \<le> (length images div bs) * bs) \<and>
      concat (map (batch_items images labels) batches)
        = take ((length images div bs) * bs) (zip images labels) \<and>
      length (drop ((length images div bs) * bs) (zip images labels)) = length images mod bs"
proof -
  let ?n = "length images div bs"
  let ?bl = "map (nth_batch bs) [0..<?n]"
  have run: "RunProcessingTask_batches bs images labels = Inr ?bl"
    using assms by (simp add: RunProcessingTask_batches_closed)
  have each: "batch_items images labels (?bl ! i) = take bs (drop (i * bs) (zip images labels)) \<and>
          length (batch_items images labels (?bl ! i)) = bs \<and>
          s_off (Images (?bl ! i)) + s_len (Images (?bl ! i)) \<le> ?n * bs" if "i < ?n" for i
  proof -
    have fit: "i * bs + bs \<le> ?n * bs"
      using that by (metis Suc_leI mult_Suc mult_le_mono1 add.commute)
    have "i * bs + bs \<le> length images" using that by (rule full_batch_fits)
    then have "i * bs + bs \<le> length (zip images labels)" using assms by simp
    then have len: "length (take bs (drop (i * bs) (zip images labels))) = bs" by auto
    have nth: "?bl ! i = nth_batch bs i" using that by simp
    have items: "batch_items images labels (?bl ! i) = take bs (drop (i * bs) (zip images labels))"
      unfolding nth by (rule batch_items_nth_batch)
    have "s_off (Images (?bl ! i)) + s_len (Images (?bl ! i)) \<le> ?n * bs"
      unfolding nth using fit by (simp add: nth_batch_def)
    with items len show ?thesis by simp
  qed
  have "concat (map (batch_items images labels) ?bl)
          = concat (map (\<lambda>i. take bs (drop (i * bs) (zip images labels))) [0..<?n])"
    by (simp add: comp_def batch_items_nth_batch)
  then have cover: "concat (map (batch_items images labels) ?bl)
          = take (?n * bs) (zip images labels)"
    by (simp add: concat_chunks)
  have rest: "length (drop (?n * bs) (zip images labels)) = length images mod bs"
    using assms by (simp add: minus_div_mult_eq_mod)
  show ?thesis
  proof (intro exI [of _ ?bl] conjI)
    show "RunProcessingTask_batches bs images labels = Inr ?bl" by (rule run)
    show "length ?bl = ?n" by simp
    show "\<forall>i < ?n.
          batch_items images labels (?bl ! i) = take bs (drop (i * bs) (zip images labels)) \<and>
          length (batch_items images labels (?bl ! i)) = bs \<and>
          s_off (Images (?bl ! i)) + s_len (Images (?bl ! i)) \<le> ?n * bs"
      using each by blast
    show "concat (map (batch_items images labels) ?bl) = take (?n * bs) (zip images labels)"
      by (rule cover)
    show "length (drop (?n * bs) (zip images labels)) = length images mod bs" by (rule rest)
  qed
qed

section \<open>The fan-out run of the Go harness\<close>

lemma filter_update_count_nat:
  "j < length xs \<Longrightarrow>
     length (filter P (xs[j := y])) + (if P (xs ! j) then 1 else 0)
       = length (filter P xs) + (if P y then 1 else 0)"
proof (induction xs arbitrary: j)
  case Nil
  then show ?case by simp
next
  case (Cons x xs)
  show ?case
  proof (cases j)
    case 0
    then show ?thesis by simp
  next
    case (Suc n)
    then have "n < length xs" using Cons.prems by simp
    then have "length (filter P (xs[n := y])) + (if P (xs ! n) then 1 else 0)
                 = length (filter P xs) + (if P y then 1 else 0)"
      by (rule Cons.IH)
    then show ?thesis using Suc by simp
  qed
qed

lemma filter_update_count:
  "j < length xs \<Longrightarrow>
     int (length (filter P (xs[j := y])))
       = int (length (filter P xs)) - (if P (xs ! j) then 1 else 0) + (if P y then 1 else 0)"
  using filter_update_count_nat [of j xs P y] by (simp split: if_splits)

lemma filter_pos: "j < length xs \<Longrightarrow> P (xs ! j) \<Longrightarrow> 0 < length (filter P xs)"
  by (metis filter_empty_conv length_greater_0_conv nth_mem)

lemma double_next:
  assumes "k < length v"
  shows "(map f (take k v) @ drop k v)[k := f ((map f (take k v) @ drop k v) ! k)]
           = map f (take (Suc k) v) @ drop (Suc k) v"
proof -
  have d: "drop k v = v ! k # drop (Suc k) v"
    using assms by (simp add: Cons_nth_drop_Suc)
  have t: "take (Suc k) v = take k v @ [v ! k]"
    using assms by (simp add: take_Suc_conv_app_nth)
  have l: "length (map f (take k v)) = k"
    using assms by simp
  show ?thesis
    unfolding d t using l by (simp add: list_update_append nth_append)
qed

text \<open>The four kinds of goroutine step.\<close>

lemma shape_ProcessBatch_step:
  assumes sh: "shape o0 h0 bl rs" and hp: "heap_ok o0 h0 bl rs" and s: "sep o0 bl"
    and j: "j < length (gs rs)"
  shows "shape o0 h0 bl (ProcessBatch_step j rs)"
proof -
  define g where "g = gs rs ! j"
  have gg: "good_g o0 h0 (bl ! j) g" using sh j by (simp add: shape_def g_def)
  have jb: "j < length bl" using sh j by (simp add: shape_def)
  show ?thesis
  proof (cases "g_done g")
    case True
    then show ?thesis using sh by (simp add: ProcessBatch_step_def g_def Let_def)
  next
    case nd: False
    show ?thesis
    proof (cases "g_image g")
      case None
      show ?thesis
      proof (cases "g_i g < s_len (Images (g_batch g))")
        case True
        have "good_g o0 h0 (bl ! j) (g\<lparr>g_image := Some (imgs rs ! (s_off (Images (g_batch g)) + g_i g), 0)\<rparr>)"
          using gg True nd sh by (simp add: good_g_def blen_def vec_at_def shape_def)
        then show ?thesis
          using sh nd None True j
          by (auto simp add: ProcessBatch_step_def g_def [symmetric] Let_def shape_def
              nth_list_update filter_update_count)
      next
        case False
        have pos: "0 < wg rs"
          using sh j nd filter_pos [of j "gs rs" "\<lambda>g. \<not> g_done g"] by (simp add: shape_def g_def)
        have "good_g o0 h0 (bl ! j) (g\<lparr>g_done := True\<rparr>)"
          using gg False None by (simp add: good_g_def blen_def)
        then show ?thesis
          using sh nd None False j pos
          by (auto simp add: ProcessBatch_step_def g_def [symmetric] Let_def shape_def
              nth_list_update filter_update_count)
      qed
    next
      case (Some ak)
      obtain a k where ak: "ak = (a, k)" by (cases ak)
      have gi: "g_i g < blen (bl ! j)" and a: "a = vec_at o0 (bl ! j) (g_i g)"
        and k: "k \<le> length (h0 a)" and gb: "g_batch g = bl ! j"
        using gg Some ak by (auto simp add: good_g_def)
      show ?thesis
      proof (cases "k < length (heap rs a)")
        case True
        have hl: "heap rs a = prog g (g_i g) (h0 a)"
          using hp j gi a by (simp add: heap_ok_def g_def)
        then have "length (heap rs a) = length (h0 a)"
          using Some ak k by (simp add: prog_def)
        with True have "good_g o0 h0 (bl ! j) (g\<lparr>g_image := Some (a, k + 1)\<rparr>)"
          using gg Some ak by (simp add: good_g_def)
        then show ?thesis
          using sh nd Some ak True j
          by (auto simp add: ProcessBatch_step_def g_def [symmetric] Let_def shape_def
              nth_list_update filter_update_count)
      next
        case False
        have "good_g o0 h0 (bl ! j) (g\<lparr>g_i := g_i g + 1, g_image := None\<rparr>)"
          using gg gi nd by (simp add: good_g_def)
        moreover have "(imgs rs)[s_off (Images (g_batch g)) + g_i g := a] = o0"
          using sh a gb by (simp add: shape_def vec_at_def)
        ultimately show ?thesis
          using sh nd Some ak False j
          by (auto simp add: ProcessBatch_step_def g_def [symmetric] Let_def shape_def
              nth_list_update filter_update_count)
      qed
    qed
  qed
qed


lemma prog_cong:
  "g_i g' = g_i g \<Longrightarrow> (q = g_i g \<Longrightarrow> g_image g' = g_image g) \<Longrightarrow> prog g' q v = prog g q v"
  by (simp add: prog_def)

lemma heap_ok_ProcessBatch_step:
  assumes sh: "shape o0 h0 bl rs" and hp: "heap_ok o0 h0 bl rs" and s: "sep o0 bl"
    and j: "j < length (gs rs)"
  shows "heap_ok o0 h0 bl (ProcessBatch_step j rs)"
proof -
  define g where "g = gs rs ! j"
  have gg: "good_g o0 h0 (bl ! j) g" using sh j by (simp add: shape_def g_def)
  have jb: "j < length bl" using sh j by (simp add: shape_def)
  have lb: "length (gs rs) \<le> length bl" using sh by (simp add: shape_def)
  have own: "heap rs (vec_at o0 (bl ! j') q) = prog (gs rs ! j') q (h0 (vec_at o0 (bl ! j') q))"
    if "j' < length (gs rs)" "q < blen (bl ! j')" for j' q
    using hp that by (simp add: heap_ok_def)
  have free: "heap rs a = h0 a"
    if "\<And>j' q. j' < length (gs rs) \<Longrightarrow> q < blen (bl ! j') \<Longrightarrow> a \<noteq> vec_at o0 (bl ! j') q" for a
    using hp that by (simp add: heap_ok_def)
  show ?thesis
  proof (cases "g_done g")
    case True
    then show ?thesis using hp by (simp add: ProcessBatch_step_def g_def Let_def)
  next
    case nd: False
    show ?thesis
    proof (cases "g_image g")
      case None
      show ?thesis
      proof (cases "g_i g < s_len (Images (g_batch g))")
        case True
        let ?g' = "g\<lparr>g_image := Some (imgs rs ! (s_off (Images (g_batch g)) + g_i g), 0)\<rparr>"
        have st: "ProcessBatch_step j rs = rs\<lparr>gs := (gs rs)[j := ?g']\<rparr>"
          using nd None True by (simp add: ProcessBatch_step_def g_def [symmetric] Let_def)
        have pg: "prog ?g' q v = prog g q v" for q v
          using None by (simp add: prog_def)
        show ?thesis
          unfolding st heap_ok_def
        proof (intro conjI allI impI)
          fix j' q assume a: "j' < length (gs (rs\<lparr>gs := (gs rs)[j := ?g']\<rparr>))" "q < blen (bl ! j')"
          then have "j' < length (gs rs)" by simp
          with a own [of j' q] show "heap (rs\<lparr>gs := (gs rs)[j := ?g']\<rparr>) (vec_at o0 (bl ! j') q)
              = prog (gs (rs\<lparr>gs := (gs rs)[j := ?g']\<rparr>) ! j') q (h0 (vec_at o0 (bl ! j') q))"
            using pg by (cases "j' = j") (simp_all add: g_def)
        next
          fix a assume "\<forall>j' < length (gs (rs\<lparr>gs := (gs rs)[j := ?g']\<rparr>)). \<forall>q < blen (bl ! j').
                          a \<noteq> vec_at o0 (bl ! j') q"
          then show "heap (rs\<lparr>gs := (gs rs)[j := ?g']\<rparr>) a = h0 a"
            using free [of a] by simp
        qed
      next
        case False
        let ?g' = "g\<lparr>g_done := True\<rparr>"
        have pos: "0 < wg rs"
          using sh j nd filter_pos [of j "gs rs" "\<lambda>g. \<not> g_done g"] by (simp add: shape_def g_def)
        have st: "ProcessBatch_step j rs = rs\<lparr>wg := wg rs - 1, gs := (gs rs)[j := ?g']\<rparr>"
          using nd None False pos by (simp add: ProcessBatch_step_def g_def [symmetric] Let_def)
        have pg: "prog ?g' q v = prog g q v" for q v
          by (simp add: prog_def)
        show ?thesis
          unfolding st heap_ok_def
        proof (intro conjI allI impI)
          fix j' q assume a: "j' < length (gs (rs\<lparr>wg := wg rs - 1, gs := (gs rs)[j := ?g']\<rparr>))"
            "q < blen (bl ! j')"
          then have "j' < length (gs rs)" by simp
          with a own [of j' q]
          show "heap (rs\<lparr>wg := wg rs - 1, gs := (gs rs)[j := ?g']\<rparr>) (vec_at o0 (bl ! j') q)
              = prog (gs (rs\<lparr>wg := wg rs - 1, gs := (gs rs)[j := ?g']\<rparr>) ! j') q
                  (h0 (vec_at o0 (bl ! j') q))"
            using pg by (cases "j' = j") (simp_all add: g_def)
        next
          fix a assume "\<forall>j' < length (gs (rs\<lparr>wg := wg rs - 1, gs := (gs rs)[j := ?g']\<rparr>)).
                          \<forall>q < blen (bl ! j'). a \<noteq> vec_at o0 (bl ! j') q"
          then show "heap (rs\<lparr>wg := wg rs - 1, gs := (gs rs)[j := ?g']\<rparr>) a = h0 a"
            using free [of a] by simp
        qed
      qed
    next
      case (Some ak)
      obtain a k where ak: "ak = (a, k)" by (cases ak)
      have gi: "g_i g < blen (bl ! j)" and a: "a = vec_at o0 (bl ! j) (g_i g)"
        and k: "k \<le> length (h0 a)" and gb: "g_batch g = bl ! j"
        using gg Some ak by (auto simp add: good_g_def)
      have ha: "heap rs a = map (\<lambda>e. 2 * e) (take k (h0 a)) @ drop k (h0 a)"
        using own [of j "g_i g"] j gi a Some ak by (simp add: prog_def g_def)
      then have hl: "length (heap rs a) = length (h0 a)" using k by simp
      have other: "vec_at o0 (bl ! j') q \<noteq> a"
        if "j' < length (gs rs)" "q < blen (bl ! j')" "j' \<noteq> j \<or> q \<noteq> g_i g" for j' q
      proof
        assume "vec_at o0 (bl ! j') q = a"
        then have "vec_at o0 (bl ! j') q = vec_at o0 (bl ! j) (g_i g)" using a by simp
        moreover have "j' < length bl" using that lb by simp
        ultimately have "j' = j \<and> q = g_i g"
          using s jb gi that unfolding sep_def by blast
        with that show False by simp
      qed
      show ?thesis
      proof (cases "k < length (heap rs a)")
        case True
        let ?g' = "g\<lparr>g_image := Some (a, k + 1)\<rparr>"
        let ?rs' = "rs\<lparr>heap := (heap rs)(a := (heap rs a)[k := heap rs a ! k * 2]),
                        gs := (gs rs)[j := ?g']\<rparr>"
        have st: "ProcessBatch_step j rs = ?rs'"
          using nd Some ak True by (simp add: ProcessBatch_step_def g_def [symmetric] Let_def)
        have kv: "k < length (h0 a)" using True hl by simp
        have new: "(heap rs a)[k := heap rs a ! k * 2]
                     = map (\<lambda>e. 2 * e) (take (Suc k) (h0 a)) @ drop (Suc k) (h0 a)"
          using double_next [OF kv, of "\<lambda>e. 2 * e"] by (simp add: ha mult.commute)
        show ?thesis
          unfolding st heap_ok_def
        proof (intro conjI allI impI)
          fix j' q assume b: "j' < length (gs ?rs')" "q < blen (bl ! j')"
          then have j': "j' < length (gs rs)" by simp
          show "heap ?rs' (vec_at o0 (bl ! j') q) = prog (gs ?rs' ! j') q (h0 (vec_at o0 (bl ! j') q))"
          proof (cases "j' = j \<and> q = g_i g")
            case True
            then show ?thesis using j a new by (simp add: prog_def)
          next
            case False
            then have ne: "vec_at o0 (bl ! j') q \<noteq> a" using other [OF j' b(2)] by blast
            have "prog (gs ?rs' ! j') q (h0 (vec_at o0 (bl ! j') q))
                    = prog (gs rs ! j') q (h0 (vec_at o0 (bl ! j') q))"
              using False j by (cases "j' = j") (simp_all add: prog_def g_def)
            with ne own [OF j' b(2)] show ?thesis by simp
          qed
        next
          fix a' assume f: "\<forall>j' < length (gs ?rs'). \<forall>q < blen (bl ! j'). a' \<noteq> vec_at o0 (bl ! j') q"
          then have "a' \<noteq> a" using j gi a by auto
          moreover have "heap rs a' = h0 a'" using f free [of a'] by simp
          ultimately show "heap ?rs' a' = h0 a'" by simp
        qed
      next
        case False
        let ?g' = "g\<lparr>g_i := g_i g + 1, g_image := None\<rparr>"
        let ?rs' = "rs\<lparr>imgs := (imgs rs)[s_off (Images (g_batch g)) + g_i g := a],
                        gs := (gs rs)[j := ?g']\<rparr>"
        have st: "ProcessBatch_step j rs = ?rs'"
          using nd Some ak False by (simp add: ProcessBatch_step_def g_def [symmetric] Let_def)
        have kk: "k = length (h0 a)" using False hl k by simp
        show ?thesis
          unfolding st heap_ok_def
        proof (intro conjI allI impI)
          fix j' q assume b: "j' < length (gs ?rs')" "q < blen (bl ! j')"
          then have j': "j' < length (gs rs)" by simp
          show "heap ?rs' (vec_at o0 (bl ! j') q) = prog (gs ?rs' ! j') q (h0 (vec_at o0 (bl ! j') q))"
          proof (cases "j' = j")
            case True
            have "prog ?g' q (h0 (vec_at o0 (bl ! j) q)) = prog g q (h0 (vec_at o0 (bl ! j) q))"
              using Some ak kk a by (auto simp add: prog_def)
            then show ?thesis using True j own [OF j' b(2)] by (simp add: g_def)
          next
            case False
            then show ?thesis using j own [OF j' b(2)] by simp
          qed
        next
          fix a' assume f: "\<forall>j' < length (gs ?rs'). \<forall>q < blen (bl ! j'). a' \<noteq> vec_at o0 (bl ! j') q"
          then show "heap ?rs' a' = h0 a'" using free [of a'] by simp
        qed
      qed
    qed
  qed
qed


lemma shape_launch_or_wait:
  assumes sh: "shape o0 h0 bl rs"
  shows "shape o0 h0 bl (launch_or_wait rs)"
proof (cases "pending rs")
  case Nil
  show ?thesis
  proof (cases "wg rs = 0")
    case True
    then have "launch_or_wait rs = rs\<lparr>waited := True\<rparr>" using Nil by (simp add: launch_or_wait_def)
    moreover have "shape o0 h0 bl (rs\<lparr>waited := True\<rparr>)"
      using sh Nil True unfolding shape_def by simp
    ultimately show ?thesis by simp
  next
    case False
    then have "launch_or_wait rs = rs" using Nil by (simp add: launch_or_wait_def)
    then show ?thesis using sh by simp
  qed
next
  case (Cons b rest)
  let ?n = "length (gs rs)"
  have dr: "drop ?n bl = b # rest" using sh Cons by (simp add: shape_def)
  then have n: "?n < length bl" by (metis drop_all list.distinct(1) not_le)
  have b: "b = bl ! ?n" and rest: "rest = drop (Suc ?n) bl"
    using dr n by (simp_all add: Cons_nth_drop_Suc [symmetric])
  have nw: "\<not> waited rs" using sh Cons by (auto simp add: shape_def)
  let ?g = "\<lparr>g_batch = b, g_i = 0, g_image = None, g_done = False\<rparr>"
  let ?rs' = "rs\<lparr>pending := rest, wg := wg rs + 1, gs := gs rs @ [?g]\<rparr>"
  have st: "launch_or_wait rs = ?rs'" using Cons by (simp add: launch_or_wait_def)
  have old: "imgs rs = o0" "crashed rs = None"
    "\<And>j. j < ?n \<Longrightarrow> good_g o0 h0 (bl ! j) (gs rs ! j)"
    "wg rs = int (length (filter (\<lambda>g. \<not> g_done g) (gs rs)))"
    using sh unfolding shape_def by blast+
  have new: "good_g o0 h0 (bl ! ?n) ?g"
    using b by (simp add: good_g_def)
  have each: "good_g o0 h0 (bl ! j) (gs ?rs' ! j)" if "j < length (gs ?rs')" for j
  proof (cases "j < ?n")
    case True
    then show ?thesis using old(3) by (simp add: nth_append)
  next
    case False
    then have "j = ?n" using that by simp
    then show ?thesis using new by (simp add: nth_append)
  qed
  show ?thesis
    unfolding st shape_def
  proof (intro conjI)
    show "imgs ?rs' = o0" using old by simp
    show "crashed ?rs' = None" using old by simp
    show "length (gs ?rs') \<le> length bl" using n by simp
    show "pending ?rs' = drop (length (gs ?rs')) bl" using rest by simp
    show "\<forall>j < length (gs ?rs'). good_g o0 h0 (bl ! j) (gs ?rs' ! j)" using each by blast
    show "wg ?rs' = int (length (filter (\<lambda>g. \<not> g_done g) (gs ?rs')))" using old by simp
    show "waited ?rs' \<longrightarrow> pending ?rs' = [] \<and> wg ?rs' = 0" using nw by simp
  qed
qed

lemma heap_ok_launch_or_wait:
  assumes sh: "shape o0 h0 bl rs" and hp: "heap_ok o0 h0 bl rs" and s: "sep o0 bl"
  shows "heap_ok o0 h0 bl (launch_or_wait rs)"
proof (cases "pending rs")
  case Nil
  then show ?thesis using hp by (simp add: launch_or_wait_def heap_ok_def)
next
  case (Cons b rest)
  let ?n = "length (gs rs)"
  let ?g = "\<lparr>g_batch = b, g_i = 0, g_image = None, g_done = False\<rparr>"
  let ?rs' = "rs\<lparr>pending := rest, wg := wg rs + 1, gs := gs rs @ [?g]\<rparr>"
  have st: "launch_or_wait rs = ?rs'" using Cons by (simp add: launch_or_wait_def)
  have dr: "drop ?n bl = b # rest" using sh Cons by (simp add: shape_def)
  then have n: "?n < length bl" by (metis drop_all list.distinct(1) not_le)
  have own: "heap rs (vec_at o0 (bl ! j') q) = prog (gs rs ! j') q (h0 (vec_at o0 (bl ! j') q))"
    if "j' < length (gs rs)" "q < blen (bl ! j')" for j' q
    using hp that by (simp add: heap_ok_def)
  have free: "heap rs a = h0 a"
    if "\<And>j' q. j' < length (gs rs) \<Longrightarrow> q < blen (bl ! j') \<Longrightarrow> a \<noteq> vec_at o0 (bl ! j') q" for a
    using hp that by (simp add: heap_ok_def)
  show ?thesis
    unfolding st heap_ok_def
  proof (intro conjI allI impI)
    fix j' q assume b: "j' < length (gs ?rs')" "q < blen (bl ! j')"
    show "heap ?rs' (vec_at o0 (bl ! j') q) = prog (gs ?rs' ! j') q (h0 (vec_at o0 (bl ! j') q))"
    proof (cases "j' < ?n")
      case True
      then show ?thesis using own [OF True b(2)] by (simp add: nth_append)
    next
      case False
      then have e: "j' = ?n" using b by simp
      have "heap rs (vec_at o0 (bl ! ?n) q) = h0 (vec_at o0 (bl ! ?n) q)"
      proof (rule free)
        fix j'' q' assume c: "j'' < ?n" "q' < blen (bl ! j'')"
        show "vec_at o0 (bl ! ?n) q \<noteq> vec_at o0 (bl ! j'') q'"
        proof
          assume "vec_at o0 (bl ! ?n) q = vec_at o0 (bl ! j'') q'"
          moreover have "j'' < length bl" using c n by simp
          ultimately have "?n = j''" using s n b c e unfolding sep_def by blast
          with c show False by simp
        qed
      qed
      then show ?thesis using e by (simp add: prog_def)
    qed
  next
    fix a assume "\<forall>j' < length (gs ?rs'). \<forall>q < blen (bl ! j'). a \<noteq> vec_at o0 (bl ! j') q"
    then have "\<And>j' q. j' < length (gs rs) \<Longrightarrow> q < blen (bl ! j') \<Longrightarrow> a \<noteq> vec_at o0 (bl ! j') q"
      by simp
    then show "heap ?rs' a = h0 a" using free [of a] by simp
  qed
qed

lemma go_inv_step:
  assumes "go_inv o0 h0 bl rs" and "sep o0 bl"
  shows "go_inv o0 h0 bl (go_step e rs)"
proof (cases "crashed rs \<noteq> None \<or> waited rs")
  case True
  then show ?thesis using assms by (auto simp add: go_step_def)
next
  case False
  show ?thesis
  proof (cases e)
    case Launcher
    then show ?thesis
      using assms False
      by (simp add: go_step_def go_inv_def shape_launch_or_wait heap_ok_launch_or_wait)
  next
    case (Worker j)
    then show ?thesis
      using assms False
      by (simp add: go_step_def go_inv_def shape_ProcessBatch_step heap_ok_ProcessBatch_step)
  qed
qed

lemma go_inv_fold:
  assumes "go_inv o0 h0 bl rs" and "sep o0 bl"
  shows "go_inv o0 h0 bl (fold go_step sched rs)"
  using assms by (induction sched arbitrary: rs) (simp_all add: go_inv_step)

lemma go_inv_start: "go_inv images h bl (go_start h images bl)"
  by (simp add: go_inv_def shape_def heap_ok_def go_start_def)

lemma all_done:
  assumes "int (length (filter (\<lambda>g. \<not> g_done g) xs)) = 0" and "j < length xs"
  shows "g_done (xs ! j)"
  using assms filter_pos [of j xs "\<lambda>g. \<not> g_done g"] by auto

text \<open>What the invariant says when the wait has returned.\<close>

lemma go_inv_waited:
  assumes inv: "go_inv o0 h0 bl rs" and w: "waited rs"
  shows "imgs rs = o0 \<and> crashed rs = None \<and>
         (\<forall>j < length bl. \<forall>q < blen (bl ! j).
            heap rs (vec_at o0 (bl ! j) q) = map (\<lambda>e. 2 * e) (h0 (vec_at o0 (bl ! j) q))) \<and>
         (\<forall>a. (\<forall>j < length bl. \<forall>q < blen (bl ! j). a \<noteq> vec_at o0 (bl ! j) q)
            \<longrightarrow> heap rs a = h0 a)"
proof -
  have sh: "shape o0 h0 bl rs" and hp: "heap_ok o0 h0 bl rs" using inv by (simp_all add: go_inv_def)
  have p: "pending rs = []" and z: "wg rs = 0" using sh w unfolding shape_def by blast+
  have "drop (length (gs rs)) bl = []" using sh p by (simp add: shape_def)
  moreover have "length (gs rs) \<le> length bl" using sh by (simp add: shape_def)
  ultimately have n: "length (gs rs) = length bl" by simp
  have dn: "g_done (gs rs ! j)" if "j < length bl" for j
    using sh z that n all_done [of "gs rs" j] by (simp add: shape_def)
  have fin: "prog (gs rs ! j) q v = map (\<lambda>e. 2 * e) v" if "j < length bl" "q < blen (bl ! j)" for j q v
  proof -
    have "good_g o0 h0 (bl ! j) (gs rs ! j)" using sh that n by (simp add: shape_def)
    with dn [OF that(1)] have "g_i (gs rs ! j) = blen (bl ! j)" by (simp add: good_g_def)
    with that show ?thesis by (simp add: prog_def)
  qed
  show ?thesis
    using sh hp n fin by (simp add: shape_def heap_ok_def)
qed

lemma make_batch_Inr:
  "make_batch bs ni nl i = Inr b \<Longrightarrow> b = nth_batch bs i \<and> i * bs + bs \<le> ni"
  by (auto simp add: make_batch_def slice_expr_def nth_batch_def Let_def split: if_splits)

lemma batch_loop_Inr:
  "batch_loop bs ni nl js = Inr bl \<Longrightarrow> bl = map (nth_batch bs) js"
proof (induction js arbitrary: bl)
  case Nil
  then show ?case by simp
next
  case (Cons i js)
  then show ?case
    by (auto split: sum.splits dest: make_batch_Inr)
qed

lemma RunProcessingTask_batches_Inr:
  "RunProcessingTask_batches bs images labels = Inr bl \<Longrightarrow>
     0 < bs \<and> bl = map (nth_batch bs) [0..<length images div bs]"
  by (auto simp add: RunProcessingTask_batches_def Let_def split: if_splits dest: batch_loop_Inr)

lemma chunk_index_unique:
  assumes "(j::nat) * bs + q = j' * bs + q'" "q < bs" "q' < bs"
  shows "j = j' \<and> q = q'"
proof -
  have "j = (j * bs + q) div bs" using assms(2) by simp
  also have "\<dots> = (j' * bs + q') div bs" using assms(1) by simp
  also have "\<dots> = j'" using assms(3) by simp
  finally have "j = j'" .
  with assms(1) show ?thesis by simp
qed

lemma chunk_index_bound:
  assumes "j < n div bs" "q < bs"
  shows "j * bs + q < (n div bs) * (bs::nat)"
proof -
  have "j * bs + q < j * bs + bs" using assms(2) by simp
  also have "\<dots> = Suc j * bs" by simp
  also have "\<dots> \<le> (n div bs) * bs" using assms(1) by (simp add: Suc_leI mult_le_mono1 del: mult_Suc)
  finally show ?thesis .
qed

lemma chunk_index_in_range:
  assumes "j < n div bs" "q < bs"
  shows "j * bs + q < (n::nat)"
proof -
  have "j * bs + q < (n div bs) * bs" using assms by (rule chunk_index_bound)
  also have "\<dots> \<le> n" by simp
  finally show ?thesis .
qed

lemma sep_batches:
  assumes "distinct images"
  shows "sep images (map (nth_batch bs) [0..<length images div bs])"
  unfolding sep_def
proof (intro conjI allI impI)
  let ?n = "length images div bs"
  let ?bl = "map (nth_batch bs) [0..<?n]"
  fix j j' q q'
  assume a: "j < length ?bl" "j' < length ?bl" "q < blen (?bl ! j)" "q' < blen (?bl ! j')"
    "vec_at images (?bl ! j) q = vec_at images (?bl ! j') q'"
  then have j: "j < ?n" "j' < ?n" and q: "q < bs" "q' < bs"
    by (simp_all add: blen_def nth_batch_def)
  have r: "j * bs + q < length images" "j' * bs + q' < length images"
    using j q by (simp_all add: chunk_index_in_range)
  have "images ! (j * bs + q) = images ! (j' * bs + q')"
    using a(5) j by (simp add: vec_at_def nth_batch_def)
  then have "j * bs + q = j' * bs + q'"
    using assms r by (simp add: nth_eq_iff_index_eq)
  then show "j = j'" "q = q'" using q chunk_index_unique by blast+
next
  let ?n = "length images div bs"
  let ?bl = "map (nth_batch bs) [0..<?n]"
  fix j q assume a: "j < length ?bl" "q < blen (?bl ! j)"
  then have j: "j < ?n" and q: "q < bs" by (simp_all add: blen_def nth_batch_def)
  have "j * bs + q < length images" using j q by (rule chunk_index_in_range)
  then show "s_off (Images (?bl ! j)) + q < length images"
    using j by (simp add: nth_batch_def)
qed

text \<open>The effect of one returned run on the memory.\<close>

lemma RunProcessingTask_effect:
  assumes d: "distinct images"
    and r: "RunProcessingTask bs clock sched h images labels = Returns (et, oh, h', images')"
  shows "0 < bs" and "images' = images"
    and "\<And>p. p < (length images div bs) * bs \<Longrightarrow>
           h' (images ! p) = map (\<lambda>e. 2 * e) (h (images ! p))"
    and "\<And>p. (length images div bs) * bs \<le> p \<Longrightarrow> p < length images \<Longrightarrow>
           h' (images ! p) = h (images ! p)"
    and "\<And>a. a \<notin> set images \<Longrightarrow> h' a = h a"
proof -
  let ?n = "length images div bs"
  let ?bl = "map (nth_batch bs) [0..<?n]"
  obtain bl where bl: "RunProcessingTask_batches bs images labels = Inr bl"
    using r by (auto simp add: RunProcessingTask_def split: sum.splits)
  then have bs: "0 < bs" and ble: "bl = ?bl" by (auto dest: RunProcessingTask_batches_Inr)
  define rs where "rs = fold go_step sched (go_start h images ?bl)"
  have fin: "waited rs" "h' = heap rs" "images' = imgs rs"
    using r bl ble
    by (auto simp add: RunProcessingTask_def rs_def Let_def split: option.splits if_splits)
  have inv: "go_inv images h ?bl rs"
    unfolding rs_def by (intro go_inv_fold go_inv_start sep_batches d)
  note w = go_inv_waited [OF inv fin(1)]
  show "0 < bs" by (rule bs)
  show "images' = images" using w fin by simp
  have own: "heap rs (vec_at images (?bl ! j) q) = map (\<lambda>e. 2 * e) (h (vec_at images (?bl ! j) q))"
    if "j < length ?bl" "q < blen (?bl ! j)" for j q
    using w that by blast
  have free: "heap rs a = h a"
    if "\<And>j q. j < length ?bl \<Longrightarrow> q < blen (?bl ! j) \<Longrightarrow> a \<noteq> vec_at images (?bl ! j) q" for a
    using w that by blast
  show "h' (images ! p) = map (\<lambda>e. 2 * e) (h (images ! p))" if p: "p < ?n * bs" for p
  proof -
    have j: "p div bs < ?n" using p bs by (simp add: less_mult_imp_div_less)
    have q: "p mod bs < bs" using bs by simp
    have "vec_at images (?bl ! (p div bs)) (p mod bs) = images ! p"
      using j by (simp add: vec_at_def nth_batch_def)
    with own [of "p div bs" "p mod bs"] j q fin show ?thesis
      by (simp add: blen_def nth_batch_def)
  qed
  show "h' (images ! p) = h (images ! p)" if p: "?n * bs \<le> p" "p < length images" for p
  proof -
    have "heap rs (images ! p) = h (images ! p)"
    proof (rule free)
      fix j q assume a: "j < length ?bl" "q < blen (?bl ! j)"
      then have j: "j < ?n" and q: "q < bs" by (simp_all add: blen_def nth_batch_def)
      have lt: "j * bs + q < ?n * bs" using j q by (rule chunk_index_bound)
      then have "j * bs + q \<noteq> p" using p by simp
      moreover have "j * bs + q < length images" using j q by (rule chunk_index_in_range)
      ultimately have "j * bs + q \<noteq> p" "j * bs + q < length images" by simp_all
      then have "images ! p \<noteq> images ! (j * bs + q)"
        using d p by (simp add: nth_eq_iff_index_eq)
      then show "images ! p \<noteq> vec_at images (?bl ! j) q"
        using j by (simp add: vec_at_def nth_batch_def)
    qed
    then show ?thesis using fin by simp
  qed
  show "h' a = h a" if a: "a \<notin> set images" for a
  proof -
    have "heap rs a = h a"
    proof (rule free)
      fix j q assume b: "j < length ?bl" "q < blen (?bl ! j)"
      then have j: "j < ?n" and q: "q < bs" by (simp_all add: blen_def nth_batch_def)
      have "j * bs + q < length images" using j q by (rule chunk_index_in_range)
      then have "images ! (j * bs + q) \<in> set images" by simp
      with a show "a \<noteq> vec_at images (?bl ! j) q"
        using j by (auto simp add: vec_at_def nth_batch_def)
    qed
    then show ?thesis using fin by simp
  qed
qed

subsection \<open>Progress\<close>

text \<open>
  A run never gets stuck: while \<^verbatim>\<open>wg.Wait()\<close> has not returned, some goroutine can
  take a step, and every step that changes the state brings the run closer to its end.
\<close>

lemma sum_list_update_less:
  fixes f :: "'a \<Rightarrow> nat"
  assumes "j < length xs" and "f y < f (xs ! j)"
  shows "sum_list (map f (xs[j := y])) < sum_list (map f xs)"
  using assms
proof (induction xs arbitrary: j)
  case Nil
  then show ?case by simp
next
  case (Cons x xs)
  then show ?case by (cases j) simp_all
qed

lemma run_left_update:
  assumes "j < length (gs rs)" and "gs rs' = (gs rs)[j := g']"
    and "pending rs' = pending rs" and "waited rs' = waited rs"
    and "steps_left o0 h0 g' < steps_left o0 h0 (gs rs ! j)"
  shows "run_left o0 h0 rs' < run_left o0 h0 rs"
  unfolding run_left_def assms(2-4)
  using sum_list_update_less [OF assms(1), of "steps_left o0 h0" g'] assms(5) by simp

lemma worker_progress:
  assumes sh: "shape o0 h0 bl rs" and hp: "heap_ok o0 h0 bl rs"
    and j: "j < length (gs rs)" and nd: "\<not> g_done (gs rs ! j)"
  shows "run_left o0 h0 (ProcessBatch_step j rs) < run_left o0 h0 rs"
proof -
  let ?g = "gs rs ! j"
  let ?b = "bl ! j"
  have jl: "j < length bl" using sh j by (simp add: shape_def)
  have gg: "good_g o0 h0 ?b ?g" using sh j unfolding shape_def by blast
  have gb: "g_batch ?g = ?b" and gi: "g_i ?g \<le> blen ?b" using gg by (simp_all add: good_g_def)
  have im: "imgs rs = o0" using sh by (simp add: shape_def)
  have "?g \<in> set (filter (\<lambda>g. \<not> g_done g) (gs rs))" using j nd by simp
  then have "0 < length (filter (\<lambda>g. \<not> g_done g) (gs rs))" by (metis length_pos_if_in_set)
  then have wgp: "0 < wg rs" using sh by (simp add: shape_def)
  show ?thesis
  proof (cases "g_image ?g")
    case None
    show ?thesis
    proof (cases "g_i ?g < blen ?b")
      case True
      let ?g' = "?g\<lparr>g_image := Some (imgs rs ! (s_off (Images ?b) + g_i ?g), 0)\<rparr>"
      have st: "ProcessBatch_step j rs = rs\<lparr>gs := (gs rs)[j := ?g']\<rparr>"
        using None True nd gb by (simp add: ProcessBatch_step_def Let_def blen_def)
      have u: "[g_i ?g..<blen ?b] = g_i ?g # [g_i ?g + 1..<blen ?b]"
        using True by (simp add: upt_conv_Cons)
      have "steps_left o0 h0 ?g' < steps_left o0 h0 ?g"
        using None nd gb im by (simp add: steps_left_def u vec_at_def)
      then show ?thesis unfolding st by (intro run_left_update [OF j]) simp_all
    next
      case False
      let ?g' = "?g\<lparr>g_done := True\<rparr>"
      have st: "ProcessBatch_step j rs = rs\<lparr>wg := wg rs - 1, gs := (gs rs)[j := ?g']\<rparr>"
        using None False nd gb wgp by (simp add: ProcessBatch_step_def Let_def blen_def)
      have "steps_left o0 h0 ?g' < steps_left o0 h0 ?g"
        using None nd by (simp add: steps_left_def)
      then show ?thesis unfolding st by (intro run_left_update [OF j]) simp_all
    qed
  next
    case (Some ak)
    obtain a k where ak: "ak = (a, k)" by (cases ak)
    have s: "g_image ?g = Some (a, k)" using Some ak by simp
    have q: "g_i ?g < blen ?b" and a: "a = vec_at o0 ?b (g_i ?g)" and k: "k \<le> length (h0 a)"
      using gg s unfolding good_g_def by auto
    have "heap rs a = prog ?g (g_i ?g) (h0 a)"
      using hp j q a unfolding heap_ok_def by blast
    then have len: "length (heap rs a) = length (h0 a)" using s by (simp add: prog_def)
    show ?thesis
    proof (cases "k < length (heap rs a)")
      case True
      let ?g' = "?g\<lparr>g_image := Some (a, k + 1)\<rparr>"
      have st: "ProcessBatch_step j rs
          = rs\<lparr>heap := (heap rs)(a := (heap rs a)[k := heap rs a ! k * 2]), gs := (gs rs)[j := ?g']\<rparr>"
        using s True nd by (simp add: ProcessBatch_step_def Let_def)
      have "steps_left o0 h0 ?g' < steps_left o0 h0 ?g"
        using s nd True len by (simp add: steps_left_def)
      then show ?thesis unfolding st by (intro run_left_update [OF j]) simp_all
    next
      case False
      let ?g' = "?g\<lparr>g_i := g_i ?g + 1, g_image := None\<rparr>"
      have st: "ProcessBatch_step j rs
          = rs\<lparr>imgs := (imgs rs)[s_off (Images (g_batch ?g)) + g_i ?g := a], gs := (gs rs)[j := ?g']\<rparr>"
        using s False nd by (simp add: ProcessBatch_step_def Let_def)
      have "steps_left o0 h0 ?g' < steps_left o0 h0 ?g"
        using s nd False len k by (simp add: steps_left_def)
      then show ?thesis unfolding st by (intro run_left_update [OF j]) simp_all
    qed
  qed
qed

lemma launcher_progress:
  assumes "pending rs \<noteq> [] \<or> wg rs = 0" and "\<not> waited rs"
  shows "run_left o0 h0 (launch_or_wait rs) < run_left o0 h0 rs"
  using assms by (cases "pending rs") (simp_all add: launch_or_wait_def run_left_def)

lemma go_progress:
  assumes inv: "go_inv o0 h0 bl rs" and nw: "\<not> waited rs"
  shows "\<exists>e. run_left o0 h0 (go_step e rs) < run_left o0 h0 rs"
proof -
  have sh: "shape o0 h0 bl rs" and hp: "heap_ok o0 h0 bl rs" using inv by (simp_all add: go_inv_def)
  have nc: "crashed rs = None" using sh by (simp add: shape_def)
  show ?thesis
  proof (cases "pending rs \<noteq> [] \<or> wg rs = 0")
    case True
    then have "run_left o0 h0 (go_step Launcher rs) < run_left o0 h0 rs"
      using nw nc launcher_progress [of rs o0 h0] by (simp add: go_step_def)
    then show ?thesis ..
  next
    case False
    then have "length (filter (\<lambda>g. \<not> g_done g) (gs rs)) \<noteq> 0" using sh by (simp add: shape_def)
    then obtain g where "g \<in> set (gs rs)" "\<not> g_done g"
      by (metis (mono_tags, lifting) filter_False list.size(3))
    then obtain j where j: "j < length (gs rs)" and nd: "\<not> g_done (gs rs ! j)"
      by (auto simp add: in_set_conv_nth)
    have "run_left o0 h0 (go_step (Worker j) rs) < run_left o0 h0 rs"
      using worker_progress [OF sh hp j nd] nw nc j by (simp add: go_step_def)
    then show ?thesis ..
  qed
qed

lemma go_completes:
  assumes "go_inv o0 h0 bl rs" and "sep o0 bl"
  shows "\<exists>sched. waited (fold go_step sched rs)"
  using assms
proof (induction "run_left o0 h0 rs" arbitrary: rs rule: less_induct)
  case less
  show ?case
  proof (cases "waited rs")
    case True
    then have "waited (fold go_step [] rs)" by simp
    then show ?thesis ..
  next
    case False
    from go_progress [OF less.prems(1) False] obtain e
      where e: "run_left o0 h0 (go_step e rs) < run_left o0 h0 rs" ..
    have "go_inv o0 h0 bl (go_step e rs)" using less.prems by (rule go_inv_step)
    from less.hyps [OF e this less.prems(2)] obtain sched
      where "waited (fold go_step sched (go_step e rs))" ..
    then have "waited (fold go_step (e # sched) rs)" by simp
    then show ?thesis ..
  qed
qed

text \<open>Every schedule can be continued so that the call returns.\<close>

lemma RunProcessingTask_can_return:
  assumes d: "distinct images" and bs: "0 < bs" and l: "length images \<le> length labels"
  shows "\<exists>rest et oh h' images'.
           RunProcessingTask bs clock (sched @ rest) h images labels = Returns (et, oh, h', images')"
proof -
  let ?bl = "map (nth_batch bs) [0..<length images div bs]"
  let ?rs = "fold go_step sched (go_start h images ?bl)"
  have b: "RunProcessingTask_batches bs images labels = Inr ?bl"
    using bs l by (rule RunProcessingTask_batches_closed)
  have sp: "sep images ?bl" using d by (rule sep_batches)
  have inv: "go_inv images h ?bl ?rs" using go_inv_start sp by (rule go_inv_fold)
  from go_completes [OF inv sp] obtain rest where w: "waited (fold go_step rest ?rs)" ..
  let ?rs' = "fold go_step (sched @ rest) (go_start h images ?bl)"
  have w': "waited ?rs'" using w by simp
  have "go_inv images h ?bl ?rs'" using go_inv_start sp by (rule go_inv_fold)
  then have "crashed ?rs' = None" by (simp add: go_inv_def shape_def)
  then have "RunProcessingTask bs clock (sched @ rest) h images labels
      = Returns (time_Sub (clock 2) (clock 1), time_Sub (clock 3) (clock 0), heap ?rs', imgs ?rs')"
    using b w' by (simp add: RunProcessingTask_def Let_def)
  then show ?thesis by blast
qed

subsection \<open>Time, repeated runs and the remainder\<close>

lemmas go_eval = RunProcessingTask_def RunProcessingTask_batches_def make_batch_def slice_expr_def
  go_start_def go_step_def launch_or_wait_def ProcessBatch_step_def time_Sub_def Let_def

lemma upt_2: "[0..<2] = [0, 1]" by (simp add: upt_rec)

lemma demo_run:
  "RunProcessingTask 2 (\<lambda>n. 1000 * int n) demo_sched (\<lambda>a. [1]) [10, 11, 12, 13, 14] [0, 1, 2, 3, 4::int]
     = Returns (1000, 3000, (\<lambda>a. [1])(10 := [2], 11 := [2], 12 := [2], 13 := [2]), [10, 11, 12, 13, 14])"
  apply (simp add: go_eval demo_sched_def upt_2)
  apply (rule ext)
  apply simp
  done

lemma demo_run2:
  "RunProcessingTask 2 (\<lambda>n. 1000 * int n) demo_sched ((\<lambda>a. [1])(10 := [2], 11 := [2], 12 := [2], 13 := [2]))
      [10, 11, 12, 13, 14] [0, 1, 2, 3, 4::int]
     = Returns (1000, 3000, (\<lambda>a. [1])(10 := [4], 11 := [4], 12 := [4], 13 := [4]), [10, 11, 12, 13, 14])"
  apply (simp add: go_eval demo_sched_def upt_2)
  apply (rule ext)
  apply simp
  done

lemma time_Sub_mono: "t \<le> t' \<Longrightarrow> u' \<le> u \<Longrightarrow> time_Sub t u \<le> time_Sub t' u'"
  by (simp add: time_Sub_def Let_def)

lemma RunProcessingTask_times:
  assumes "RunProcessingTask bs clock sched h images labels = Returns (et, oh, h', images')"
  shows "et = time_Sub (clock 2) (clock 1) \<and> oh = time_Sub (clock 3) (clock 0)"
  using assms
  by (auto simp add: RunProcessingTask_def Let_def split: sum.splits option.splits if_splits)

text \<open>
  Claim C4. A run that returns reports a concurrency overhead that is at least its
  execution time: the overhead is measured from the first reading of the clock to the
  fourth, the execution time from the second to the third, and the readings of a
  monotonic clock do not decrease. The clock is the sequence of readings that the four
  calls of \<^verbatim>\<open>time.Now()\<close> obtain.
\<close>

theorem concurrencyOverhead_ge_executionTime:
  assumes "mono clock"
    and "RunProcessingTask bs clock sched h images labels
           = Returns (executionTime, concurrencyOverhead, h', images')"
  shows "executionTime \<le> concurrencyOverhead \<and>
         executionTime = time_Sub (clock 2) (clock 1) \<and>
         concurrencyOverhead = time_Sub (clock 3) (clock 0) \<and>
         clock 0 \<le> clock 1 \<and> clock 2 \<le> clock 3"
proof -
  have w: "clock 0 \<le> clock 1" "clock 2 \<le> clock 3"
    using assms(1) by (simp_all add: mono_def)
  then have "time_Sub (clock 2) (clock 1) \<le> time_Sub (clock 3) (clock 0)"
    by (intro time_Sub_mono)
  with w RunProcessingTask_times [OF assms(2)] show ?thesis by simp
qed

text \<open>
  The witness: the interleaved run of two goroutines under a clock that advances by
  1000 ns per reading takes 1000 ns of execution time and 3000 ns of overhead.
\<close>

theorem concurrencyOverhead_ge_executionTime_witness:
  "mono (\<lambda>n. 1000 * int n) \<and>
   RunProcessingTask 2 (\<lambda>n. 1000 * int n) demo_sched (\<lambda>a. [1]) [10, 11, 12, 13, 14] [0, 1, 2, 3, 4::int]
     = Returns (1000, 3000, (\<lambda>a. [1])(10 := [2], 11 := [2], 12 := [2], 13 := [2]), [10, 11, 12, 13, 14]) \<and>
   (1000::int) \<le> 3000"
proof -
  have m: "mono (\<lambda>n. 1000 * int n)" by (simp add: mono_def)
  from concurrencyOverhead_ge_executionTime [OF m demo_run] have "(1000::int) \<le> 3000" by simp
  with m demo_run show ?thesis by simp
qed

lemma main_runs_effect:
  assumes "distinct images"
    and "main_runs bs envs h images labels = Returns (h', images')"
  shows "images' = images \<and>
         (\<forall>p < (length images div bs) * bs.
            h' (images ! p) = map (\<lambda>e. 2 ^ length envs * e) (h (images ! p))) \<and>
         (\<forall>p. (length images div bs) * bs \<le> p \<longrightarrow> p < length images \<longrightarrow>
            h' (images ! p) = h (images ! p)) \<and>
         (\<forall>a. a \<notin> set images \<longrightarrow> h' a = h a)"
  using assms(2)
proof (induction envs arbitrary: h)
  case Nil
  then show ?case by simp
next
  case (Cons env envs)
  from Cons.prems obtain et oh h1 images1 where
    r1: "RunProcessingTask bs (fst env) (snd env) h images labels = Returns (et, oh, h1, images1)"
    and rest: "main_runs bs envs h1 images1 labels = Returns (h', images')"
    by (auto split: outcome.splits)
  note e = RunProcessingTask_effect [OF assms(1) r1]
  have i1: "images1 = images" by (rule e(2))
  note ih = Cons.IH [OF rest [unfolded i1]]
  have "h' (images ! p) = map (\<lambda>e. 2 ^ length (env # envs) * e) (h (images ! p))"
    if "p < (length images div bs) * bs" for p
  proof -
    have "h' (images ! p) = map (\<lambda>e. 2 ^ length envs * e) (h1 (images ! p))"
      using ih that by blast
    also have "h1 (images ! p) = map (\<lambda>e. 2 * e) (h (images ! p))"
      using e(3) that by blast
    finally show ?thesis by (simp add: comp_def mult.assoc mult.left_commute)
  qed
  moreover have "h' (images ! p) = h (images ! p)"
    if "(length images div bs) * bs \<le> p" "p < length images" for p
    using ih e(4) that by simp
  moreover have "h' a = h a" if "a \<notin> set images" for a
    using ih e(5) that by simp
  ultimately show ?case using ih by blast
qed

text \<open>
  Claim C10. The batches alias the vectors of the dataset and nothing resets them
  between runs, so the runs compound: after \<open>r\<close> returned runs over the same dataset,
  with any schedules, every vector that belongs to a batch holds \<open>2 ^ r\<close> times its
  loaded elements. The hypothesis \<open>distinct images\<close> says that the dataset holds each
  pixel array once, as the loader builds it.
\<close>

theorem repeated_runs_compound:
  assumes "distinct images"
    and "main_runs bs envs h images labels = Returns (h', images')"
  shows "images' = images \<and>
         (\<forall>p < (length images div bs) * bs.
            h' (images ! p) = map (\<lambda>e. 2 ^ length envs * e) (h (images ! p)))"
  using main_runs_effect [OF assms] by blast

lemma demo_main:
  "main_runs 2 [(\<lambda>n. 1000 * int n, demo_sched), (\<lambda>n. 1000 * int n, demo_sched)] (\<lambda>a. [1])
       [10, 11, 12, 13, 14] [0, 1, 2, 3, 4::int]
     = Returns ((\<lambda>a. [1])(10 := [4], 11 := [4], 12 := [4], 13 := [4]), [10, 11, 12, 13, 14])"
  by (simp add: demo_run demo_run2)

text \<open>
  The witness: two runs over an all-ones dataset of five one-element vectors, batches of
  two. The four batched vectors end at 4, not at 2.
\<close>

theorem repeated_runs_compound_witness:
  "distinct [10, 11, 12, 13, 14::nat] \<and>
   main_runs 2 [(\<lambda>n. 1000 * int n, demo_sched), (\<lambda>n. 1000 * int n, demo_sched)] (\<lambda>a. [1])
       [10, 11, 12, 13, 14] [0, 1, 2, 3, 4::int]
     = Returns ((\<lambda>a. [1])(10 := [4], 11 := [4], 12 := [4], 13 := [4]), [10, 11, 12, 13, 14]) \<and>
   ((\<lambda>a. [1::real])(10 := [4], 11 := [4], 12 := [4], 13 := [4])) ([10, 11, 12, 13, 14] ! 3)
     = map (\<lambda>e. 2 ^ 2 * e) [1]"
proof -
  have d: "distinct [10, 11, 12, 13, 14::nat]" by simp
  have p: "3 < (length [10, 11, 12, 13, 14::nat] div 2) * 2" by simp
  note w = repeated_runs_compound [OF d demo_main, THEN conjunct2, rule_format, OF p]
  have "((\<lambda>a. [1::real])(10 := [4], 11 := [4], 12 := [4], 13 := [4])) ([10, 11, 12, 13, 14] ! 3)
     = map (\<lambda>e. 2 ^ 2 * e) [1]"
    using w by simp
  with d demo_main show ?thesis by simp
qed

lemma trailing_not_batched:
  assumes d: "distinct images"
    and a: "a \<in> set (drop ((length images div bs) * bs) images)"
    and j: "j < length images div bs" and q: "q < bs"
  shows "a \<noteq> images ! (j * bs + q)"
proof -
  let ?m = "(length images div bs) * bs"
  from a obtain i where i: "i < length (drop ?m images)" "a = drop ?m images ! i"
    by (auto simp add: in_set_conv_nth)
  then have p: "?m + i < length images" "a = images ! (?m + i)" by simp_all
  have lt: "j * bs + q < ?m" using j q by (rule chunk_index_bound)
  moreover have "j * bs + q < length images" using j q by (rule chunk_index_in_range)
  ultimately have "images ! (?m + i) \<noteq> images ! (j * bs + q)"
    using d p(1) by (simp add: nth_eq_iff_index_eq)
  with p show ?thesis by simp
qed

lemma trailing_free:
  assumes d: "distinct images"
    and a: "a \<in> set (drop ((length images div bs) * bs) images)"
    and jq: "j < length (map (nth_batch bs) [0..<length images div bs])"
      "q < blen (map (nth_batch bs) [0..<length images div bs] ! j)"
  shows "a \<noteq> vec_at images (map (nth_batch bs) [0..<length images div bs] ! j) q"
proof -
  have j: "j < length images div bs" and q: "q < bs"
    using jq by (simp_all add: blen_def nth_batch_def)
  then show ?thesis
    using trailing_not_batched [OF d a j q] by (simp add: vec_at_def nth_batch_def)
qed

lemma slice_view_nth_batch:
  "slice_view images (Images (nth_batch bs j)) = take bs (drop (j * bs) images)"
  by (simp add: slice_view_def nth_batch_def)

lemma trailing_in_no_batch:
  assumes d: "distinct images"
    and a: "a \<in> set (drop ((length images div bs) * bs) images)"
    and j: "j < length images div bs"
  shows "a \<notin> set (slice_view images (Images (nth_batch bs j)))"
proof
  assume "a \<in> set (slice_view images (Images (nth_batch bs j)))"
  then obtain q where q: "q < length (take bs (drop (j * bs) images))"
    "a = take bs (drop (j * bs) images) ! q"
    by (auto simp add: slice_view_nth_batch in_set_conv_nth)
  then have "q < bs" "q < length images - j * bs" by simp_all
  then have "j * bs + q < length images" by linarith
  with q have "a = images ! (j * bs + q)" by simp
  with trailing_not_batched [OF d a j \<open>q < bs\<close>] show False by simp
qed

lemma mid_run_free:
  assumes d: "distinct images"
    and a: "a \<in> set (drop ((length images div bs) * bs) images)"
  shows "heap (fold go_step sched
            (go_start h images (map (nth_batch bs) [0..<length images div bs]))) a = h a"
proof -
  let ?bl = "map (nth_batch bs) [0..<length images div bs]"
  have "go_inv images h ?bl (fold go_step sched (go_start h images ?bl))"
    by (intro go_inv_fold go_inv_start sep_batches d)
  then have hp: "heap_ok images h ?bl (fold go_step sched (go_start h images ?bl))"
    by (simp add: go_inv_def)
  have sh: "shape images h ?bl (fold go_step sched (go_start h images ?bl))"
    using \<open>go_inv images h ?bl (fold go_step sched (go_start h images ?bl))\<close>
    by (simp add: go_inv_def)
  then have le: "length (gs (fold go_step sched (go_start h images ?bl))) \<le> length ?bl"
    unfolding shape_def by blast
  have "\<forall>j < length (gs (fold go_step sched (go_start h images ?bl))).
          \<forall>q < blen (?bl ! j). a \<noteq> vec_at images (?bl ! j) q"
  proof (intro allI impI)
    fix j q assume "j < length (gs (fold go_step sched (go_start h images ?bl)))" "q < blen (?bl ! j)"
    then have "j < length ?bl" "q < blen (?bl ! j)" using le by simp_all
    then show "a \<noteq> vec_at images (?bl ! j) q" by (rule trailing_free [OF d a])
  qed
  with hp show ?thesis unfolding heap_ok_def by blast
qed

text \<open>
  Claim C9. When the size of the dataset is not a multiple of the batch size, the last
  \<open>N mod bs\<close> vectors lie in no batch, and no run writes to them: each of them holds its
  loaded elements after any number of returned runs and at every point of the run that
  follows, under every schedule. The batched vectors are doubled by each run as usual.
\<close>

theorem remainder_vectors_never_mutated:
  assumes "distinct images"
    and "main_runs bs envs h images labels = Returns (h1, images1)"
    and "RunProcessingTask_batches bs images labels = Inr batches"
    and "a \<in> set (drop ((length images div bs) * bs) images)"
  shows "length (drop ((length images div bs) * bs) images) = length images mod bs \<and>
         (\<forall>b \<in> set batches. a \<notin> set (slice_view images (Images b))) \<and>
         h1 a = h a \<and>
         heap (fold go_step sched (go_start h1 images1 batches)) a = h a \<and>
         (\<forall>p < (length images div bs) * bs.
            h1 (images ! p) = map (\<lambda>e. 2 ^ length envs * e) (h (images ! p)))"
proof -
  let ?m = "(length images div bs) * bs"
  note e = main_runs_effect [OF assms(1,2)]
  have bl: "batches = map (nth_batch bs) [0..<length images div bs]"
    using assms(3) by (auto dest: RunProcessingTask_batches_Inr)
  from assms(4) obtain i where i: "i < length (drop ?m images)" "a = drop ?m images ! i"
    by (auto simp add: in_set_conv_nth)
  then have p: "?m + i < length images" "a = images ! (?m + i)" by simp_all
  have c1: "length (drop ?m images) = length images mod bs"
    by (simp add: minus_div_mult_eq_mod)
  have c2: "\<forall>b \<in> set batches. a \<notin> set (slice_view images (Images b))"
    unfolding bl using trailing_in_no_batch [OF assms(1,4)] by auto
  have c3: "h1 a = h a" using e p by simp
  have "heap (fold go_step sched (go_start h1 images batches)) a = h1 a"
    unfolding bl by (rule mid_run_free [OF assms(1,4)])
  with c3 e have c4: "heap (fold go_step sched (go_start h1 images1 batches)) a = h a" by simp
  show ?thesis using c1 c2 c3 c4 e by blast
qed

lemma demo_batches:
  "RunProcessingTask_batches 2 [10, 11, 12, 13, 14] [0, 1, 2, 3, 4::int]
     = Inr [nth_batch 2 0, nth_batch 2 1]"
  by (simp add: RunProcessingTask_batches_def make_batch_def slice_expr_def Let_def nth_batch_def upt_2)

text \<open>
  The witness: five vectors and batches of two. The fifth vector, at address 14, still
  holds 1 after two runs and in the middle of a third.
\<close>

theorem remainder_vectors_never_mutated_witness:
  "distinct [10, 11, 12, 13, 14::nat] \<and>
   14 \<in> set (drop ((length [10, 11, 12, 13, 14::nat] div 2) * 2) [10, 11, 12, 13, 14::nat]) \<and>
   length [10, 11, 12, 13, 14::nat] mod 2 = 1 \<and>
   ((\<lambda>a. [1::real])(10 := [4], 11 := [4], 12 := [4], 13 := [4])) (14::nat) = [1] \<and>
   heap (fold go_step [Launcher, Worker 0, Worker 0, Launcher, Worker 1]
           (go_start ((\<lambda>a. [1])(10 := [4], 11 := [4], 12 := [4], 13 := [4])) [10, 11, 12, 13, 14]
              [nth_batch 2 0, nth_batch 2 1])) 14 = [1]"
proof -
  have d: "distinct [10, 11, 12, 13, 14::nat]" by simp
  have a: "14 \<in> set (drop ((length [10, 11, 12, 13, 14::nat] div 2) * 2) [10, 11, 12, 13, 14::nat])"
    by simp
  note w = remainder_vectors_never_mutated [OF d demo_main demo_batches a, of "[Launcher, Worker 0, Worker 0, Launcher, Worker 1]"]
  have "length [10, 11, 12, 13, 14::nat] mod 2 = 1" by simp
  with d a w show ?thesis by simp
qed

section \<open>The loaders\<close>

lemma upt_first: "0 < n \<Longrightarrow> [0..<n] = 0 # [Suc 0..<n]"
  by (rule upt_conv_Cons)

lemma read_records_empty_file:
  "read_records \<lparr>b_data = [], b_spare = sp\<rparr> [0..<numImagesPerBatch] acc = Inl IndexOutOfRange"
proof -
  have "[0..<numImagesPerBatch] = 0 # [Suc 0..<numImagesPerBatch]"
    by (rule upt_first) (simp add: numImagesPerBatch_def)
  moreover have "read_record \<lparr>b_data = [], b_spare = sp\<rparr> 0 = Inl IndexOutOfRange"
    by (simp add: read_record_def index_expr_def)
  ultimately show ?thesis by simp
qed

lemma files_1_to_5: "[1..<6] = [1, 2, 3, 4, 5::nat]"
  by (simp add: upt_rec)

text \<open>
  Claim C6 at an undersized source: when the five files exist and are empty, the Go
  loader panics with an index out of range at \<^verbatim>\<open>data[0]\<close>, where the claim says it
  returns an error. The Java loader throws its \<^verbatim>\<open>IOException\<close> for every file that is
  missing or shorter than the expected size (lemma \<open>loadCifar10Dataset_short\<close>), and the
  Go loader returns an error only for a file it cannot read (lemma
  \<open>LoadCIFAR10_error_only_unreadable\<close>).
\<close>

theorem LoadCIFAR10_empty_file_panics:
  "LoadCIFAR10 (\<lambda>i. Some \<lparr>b_data = [], b_spare = []\<rparr>) = Panics IndexOutOfRange"
  unfolding LoadCIFAR10_def files_1_to_5 by (simp add: read_records_empty_file)

lemma load_files_error:
  "load_files files js acc = Returns (Inl e) \<Longrightarrow> \<exists>i \<in> set js. e = ReadFileFailed i \<and> files i = None"
proof (induction js arbitrary: acc)
  case Nil
  then show ?case by simp
next
  case (Cons i js)
  show ?case
  proof (cases "files i")
    case None
    then show ?thesis using Cons.prems by simp
  next
    case (Some d)
    then show ?thesis
      using Cons.prems Cons.IH by (auto split: sum.splits)
  qed
qed

lemma LoadCIFAR10_error_only_unreadable:
  "LoadCIFAR10 files = Returns (Inl e) \<Longrightarrow> \<exists>i \<in> {1..5}. e = ReadFileFailed i \<and> files i = None"
proof -
  assume "LoadCIFAR10 files = Returns (Inl e)"
  then have "\<exists>i \<in> set [1..<6]. e = ReadFileFailed i \<and> files i = None"
    unfolding LoadCIFAR10_def by (rule load_files_error)
  then show ?thesis by auto
qed

lemma load_batches_short:
  "\<exists>i \<in> set js. file_length (files i) < NUM_IMAGES_PER_BATCH * (1 + IMAGE_SIZE) \<Longrightarrow>
     isl (load_batches files js acc)"
proof (induction js arbitrary: acc)
  case Nil
  then show ?case by simp
next
  case (Cons i js)
  show ?case
  proof (cases "file_length (files i) < NUM_IMAGES_PER_BATCH * (1 + IMAGE_SIZE)")
    case True
    then show ?thesis by (simp add: file_length_def Let_def split: option.splits)
  next
    case False
    then have "\<exists>i \<in> set js. file_length (files i) < NUM_IMAGES_PER_BATCH * (1 + IMAGE_SIZE)"
      using Cons.prems by auto
    then have "\<And>acc. isl (load_batches files js acc)" by (rule Cons.IH)
    then show ?thesis
      by (simp add: Let_def split: option.splits sum.splits)
  qed
qed

lemma loadCifar10Dataset_short:
  assumes "i \<in> {1..5}" and "file_length (files i) < NUM_IMAGES_PER_BATCH * (1 + IMAGE_SIZE)"
  shows "isl (loadCifar10Dataset files)"
proof -
  have "\<exists>i \<in> set [1..<6]. file_length (files i) < NUM_IMAGES_PER_BATCH * (1 + IMAGE_SIZE)"
    using assms by (intro bexI [of _ i]) simp_all
  then show ?thesis unfolding loadCifar10Dataset_def by (rule load_batches_short)
qed


lemma read_images_shape:
  "read_images i js dis acc = Inr r \<Longrightarrow>
     \<exists>new. r = acc @ new \<and> length new = length js \<and> (\<forall>b \<in> set new. length b = 1)"
proof (induction js arbitrary: dis acc)
  case Nil
  then show ?case by simp
next
  case (Cons j js)
  let ?img = "map (\<lambda>b. real (unat b) / 255) (take IMAGE_SIZE (drop 1 dis))"
  from Cons.prems have "read_images i js (drop IMAGE_SIZE (drop 1 dis)) (acc @ [[?img]]) = Inr r"
    by (simp add: Let_def split: if_splits)
  from Cons.IH [OF this] obtain new where
    "r = (acc @ [[?img]]) @ new" "length new = length js" "\<forall>b \<in> set new. length b = 1"
    by blast
  then have "r = acc @ ([?img] # new) \<and> length ([?img] # new) = length (j # js) \<and>
             (\<forall>b \<in> set ([?img] # new). length b = 1)"
    by simp
  then show ?case by blast
qed

lemma load_batches_shape:
  "load_batches files js acc = Inr r \<Longrightarrow>
     \<exists>new. r = acc @ new \<and> length new = length js * NUM_IMAGES_PER_BATCH \<and>
           (\<forall>b \<in> set new. length b = 1)"
proof (induction js arbitrary: acc)
  case Nil
  then show ?case by simp
next
  case (Cons i js)
  from Cons.prems obtain content acc' where
    r1: "read_images i [0..<NUM_IMAGES_PER_BATCH] content acc = Inr acc'"
    and r2: "load_batches files js acc' = Inr r"
    by (auto simp add: Let_def split: option.splits if_splits sum.splits)
  from read_images_shape [OF r1] obtain n1 where
    n1: "acc' = acc @ n1" "length n1 = NUM_IMAGES_PER_BATCH" "\<forall>b \<in> set n1. length b = 1"
    by auto
  from Cons.IH [OF r2] obtain n2 where
    n2: "r = acc' @ n2" "length n2 = length js * NUM_IMAGES_PER_BATCH" "\<forall>b \<in> set n2. length b = 1"
    by blast
  have "r = acc @ (n1 @ n2) \<and> length (n1 @ n2) = length (i # js) * NUM_IMAGES_PER_BATCH \<and>
        (\<forall>b \<in> set (n1 @ n2). length b = 1)"
    using n1 n2 by auto
  then show ?case by blast
qed

lemma loadCifar10Dataset_shape:
  assumes "loadCifar10Dataset files = Inr allBatches"
  shows "length allBatches = 5 * NUM_IMAGES_PER_BATCH \<and> (\<forall>b \<in> set allBatches. length b = 1)"
  using load_batches_shape [OF assms [unfolded loadCifar10Dataset_def]] by auto

text \<open>Files of zero bytes.\<close>

lemma read_images_zero:
  "length js * (1 + IMAGE_SIZE) \<le> m \<Longrightarrow>
     read_images i js (replicate m 0) acc
       = Inr (acc @ replicate (length js) [replicate IMAGE_SIZE 0])"
proof (induction js arbitrary: m acc)
  case Nil
  then show ?case by simp
next
  case (Cons j js)
  then have m: "1 + IMAGE_SIZE \<le> m" "length js * (1 + IMAGE_SIZE) \<le> m - (1 + IMAGE_SIZE)"
    by simp_all
  have img: "map (\<lambda>b::8 word. real (unat b) / 255) (take IMAGE_SIZE (drop 1 (replicate m 0)))
               = replicate IMAGE_SIZE 0"
    using m(1) by (simp add: min_def)
  have rest: "drop IMAGE_SIZE (drop 1 (replicate m (0::8 word))) = replicate (m - (1 + IMAGE_SIZE)) 0"
    by simp
  have "read_images i (j # js) (replicate m 0) acc
          = read_images i js (replicate (m - (1 + IMAGE_SIZE)) 0) (acc @ [[replicate IMAGE_SIZE 0]])"
    using m(1) img rest by (simp add: Let_def del: drop_replicate take_replicate)
  also have "\<dots> = Inr ((acc @ [[replicate IMAGE_SIZE 0]]) @ replicate (length js) [replicate IMAGE_SIZE 0])"
    using m(2) by (rule Cons.IH)
  finally show ?case by (simp add: replicate_app_Cons_same)
qed

lemma load_batches_zero:
  "load_batches (\<lambda>i. Some (replicate (NUM_IMAGES_PER_BATCH * (1 + IMAGE_SIZE)) 0)) js acc
     = Inr (acc @ replicate (length js * NUM_IMAGES_PER_BATCH) [replicate IMAGE_SIZE 0])"
proof (induction js arbitrary: acc)
  case Nil
  then show ?case by simp
next
  case (Cons i js)
  have "read_images i [0..<NUM_IMAGES_PER_BATCH]
           (replicate (NUM_IMAGES_PER_BATCH * (1 + IMAGE_SIZE)) 0) acc
          = Inr (acc @ replicate (length [0..<NUM_IMAGES_PER_BATCH]) [replicate IMAGE_SIZE 0])"
    by (rule read_images_zero) simp
  then show ?case
    using Cons.IH by (simp add: Let_def replicate_add)
qed

lemma loadCifar10Dataset_zero:
  "loadCifar10Dataset (\<lambda>i. Some (replicate 30730000 0)) = Inr (replicate 50000 [replicate 3072 0])"
proof -
  have "NUM_IMAGES_PER_BATCH * (1 + IMAGE_SIZE) = 30730000"
    by (simp add: NUM_IMAGES_PER_BATCH_def IMAGE_SIZE_def)
  then have "loadCifar10Dataset (\<lambda>i. Some (replicate 30730000 0))
      = Inr ([] @ replicate (length [1..<6::nat] * NUM_IMAGES_PER_BATCH) [replicate IMAGE_SIZE 0])"
    unfolding loadCifar10Dataset_def using load_batches_zero [of "[1..<6]" "[]"] by simp
  then show ?thesis by (simp add: NUM_IMAGES_PER_BATCH_def IMAGE_SIZE_def)
qed

text \<open>
  Claim C2, as the code has it. The Go batcher: for every batch size \<open>bs > 0\<close> and every
  dataset of \<open>N\<close> images with as many labels, the batching loop of
  \<^verbatim>\<open>RunProcessingTask\<close> returns without a panic and makes \<open>N div bs\<close> batches; batch
  \<open>i\<close> holds the \<open>bs\<close> pairs at the positions \<open>i * bs, ..., i * bs + bs - 1\<close> of the
  dataset, in order; together the batches hold the first \<open>(N div bs) * bs\<close> pairs, and
  the last \<open>N mod bs\<close> pairs lie in no batch. The Java CIFAR harness has no such
  batcher: when its loader succeeds it has made one batch per image, each of exactly one
  vector, \<open>5 * NUM_IMAGES_PER_BATCH\<close> batches in all, whatever \<open>BATCH_SIZE\<close> is.
\<close>

theorem Batcher_partitions_dataset:
  "(0 < bs \<and> length labels = length images \<longrightarrow>
      (\<exists>batches.
          RunProcessingTask_batches bs images labels = Inr batches \<and>
          length batches = length images div bs \<and>
          (\<forall>i < length images div bs.
              batch_items images labels (batches ! i)
                = take bs (drop (i * bs) (zip images labels)) \<and>
              length (batch_items images labels (batches ! i)) = bs \<and>
              s_off (Images (batches ! i)) + s_len (Images (batches ! i))
                \<le> (length images div bs) * bs) \<and>
          concat (map (batch_items images labels) batches)
            = take ((length images div bs) * bs) (zip images labels) \<and>
          length (drop ((length images div bs) * bs) (zip images labels))
            = length images mod bs)) \<and>
   (loadCifar10Dataset files = Inr allBatches \<longrightarrow>
      length allBatches = 5 * NUM_IMAGES_PER_BATCH \<and> (\<forall>b \<in> set allBatches. length b = 1))"
  using Go_batcher [of bs labels images] loadCifar10Dataset_shape [of files allBatches]
  by blast

text \<open>
  The witness: five images in batches of two give two batches and leave the fifth image
  out; five files of zero bytes of the expected size load as 50000 batches of one image.
\<close>

theorem Batcher_partitions_dataset_witness:
  "RunProcessingTask_batches 2 [0, 1, 2, 3, 4] [10, 11, 12, 13, 14::int]
     = Inr [nth_batch 2 0, nth_batch 2 1] \<and>
   batch_items [0, 1, 2, 3, 4] [10, 11, 12, 13, 14::int] (nth_batch 2 0) = [(0, 10), (1, 11)] \<and>
   batch_items [0, 1, 2, 3, 4] [10, 11, 12, 13, 14::int] (nth_batch 2 1) = [(2, 12), (3, 13)] \<and>
   drop 4 (zip [0, 1, 2, 3, 4::nat] [10, 11, 12, 13, 14::int]) = [(4, 14)] \<and>
   loadCifar10Dataset (\<lambda>i. Some (replicate 30730000 0)) = Inr (replicate 50000 [replicate 3072 0]) \<and>
   length (replicate 50000 [replicate 3072 (0::real)]) = 5 * NUM_IMAGES_PER_BATCH"
proof -
  note w = Batcher_partitions_dataset [of 2 "[10, 11, 12, 13, 14::int]" "[0, 1, 2, 3, 4]"
      "\<lambda>i. Some (replicate 30730000 0)" "replicate 50000 [replicate 3072 0]"]
  have go: "RunProcessingTask_batches 2 [0, 1, 2, 3, 4] [10, 11, 12, 13, 14::int]
     = Inr [nth_batch 2 0, nth_batch 2 1] \<and>
   batch_items [0, 1, 2, 3, 4] [10, 11, 12, 13, 14::int] (nth_batch 2 0) = [(0, 10), (1, 11)] \<and>
   batch_items [0, 1, 2, 3, 4] [10, 11, 12, 13, 14::int] (nth_batch 2 1) = [(2, 12), (3, 13)] \<and>
   drop 4 (zip [0, 1, 2, 3, 4::nat] [10, 11, 12, 13, 14::int]) = [(4, 14)]"
    by (simp add: RunProcessingTask_batches_def make_batch_def slice_expr_def Let_def nth_batch_def
        batch_items_def slice_view_def upt_2)
  have "length (replicate 50000 [replicate 3072 (0::real)]) = 5 * NUM_IMAGES_PER_BATCH"
    using w loadCifar10Dataset_zero by blast
  with go loadCifar10Dataset_zero show ?thesis by blast
qed

text \<open>
  Claim C2 as the specification states it, for the Java CIFAR harness: a dataset of
  50000 images and \<open>BATCH_SIZE = 500\<close> would give 100 batches of 500 vectors. The loader
  gives 50000 batches of one vector.
\<close>

theorem loadCifar10Dataset_batches_counterexample:
  "loadCifar10Dataset (\<lambda>i. Some (replicate 30730000 0)) = Inr (replicate 50000 [replicate 3072 0]) \<and>
   length (replicate 50000 [replicate 3072 (0::real)]) \<noteq> 50000 div BATCH_SIZE \<and>
   length [replicate 3072 (0::real)] \<noteq> BATCH_SIZE"
  using loadCifar10Dataset_zero by (simp add: BATCH_SIZE_def)


section \<open>The producer and the consumer pool of the Java harness\<close>

subsection \<open>The control invariant\<close>

lemma ctl_ok_start: "ctl_ok bl0 n (java_start h bl0 n)"
  by (simp add: ctl_ok_def java_start_def pool_terminated_def)

lemma held_replicate: "held (replicate n \<lparr>c_pc = pc, c_batch = [], c_i = k\<rparr>) = []"
  by (induction n) (simp_all add: held_def)

lemma mem_ok_start: "distinct (concat bl0) \<Longrightarrow> mem_ok h bl0 (java_start h bl0 n)"
  by (auto simp add: mem_ok_def java_start_def pend_def held_replicate)

lemma ctl_ok_produce:
  assumes "ctl_ok bl0 n rs"
  shows "ctl_ok bl0 n (produceBatches_step capacity rs)"
proof (cases "p_pc rs")
  case Putting
  show ?thesis
  proof (cases "p_rest rs")
    case Nil
    then show ?thesis
      using assms Putting
      by (auto simp add: produceBatches_step_def ctl_ok_def pool_terminated_def)
  next
    case (Cons b rest)
    show ?thesis
    proof (cases "length (queue rs) < capacity")
      case True
      have nf: "\<not> isDoneProducing rs" using assms Putting by (simp add: ctl_ok_def)
      obtain pre where pre: "bl0 = pre @ p_rest rs" using assms unfolding ctl_ok_def by blast
      then have "bl0 = (pre @ [b]) @ rest" using Cons by simp
      then have suf: "\<exists>pre. bl0 = pre @ rest" by blast
      have st: "produceBatches_step capacity rs = rs\<lparr>queue := queue rs @ [b], p_rest := rest\<rparr>"
        using Putting Cons True by (simp add: produceBatches_step_def)
      show ?thesis
        unfolding st using assms nf suf Putting
        by (auto simp add: ctl_ok_def pool_terminated_def)
    next
      case False
      then show ?thesis using assms Putting Cons by (simp add: produceBatches_step_def)
    qed
  qed
next
  case InFinally
  then show ?thesis
    using assms by (auto simp add: produceBatches_step_def ctl_ok_def pool_terminated_def)
next
  case ProducerDone
  then show ?thesis using assms by (simp add: produceBatches_step_def)
qed

lemma ctl_ok_interrupt:
  assumes "ctl_ok bl0 n rs"
  shows "ctl_ok bl0 n (put_interrupted rs)"
  using assms by (auto simp add: put_interrupted_def ctl_ok_def pool_terminated_def)

lemma not_terminated_if:
  assumes "ctl_ok bl0 n rs" "i < length (consumers rs)" "c_pc (consumers rs ! i) \<noteq> ConsumerDone"
  shows "awaited rs \<noteq> Some Terminated"
  using assms by (auto simp add: ctl_ok_def pool_terminated_def list_all_length)

lemma ctl_ok_consumer_update:
  assumes ok: "ctl_ok bl0 n rs" and i: "i < length (consumers rs)"
    and nd: "c_pc (consumers rs ! i) \<noteq> ConsumerDone"
    and same: "p_pc rs' = p_pc rs" "p_rest rs' = p_rest rs" "p_caught rs' = p_caught rs"
      "isDoneProducing rs' = isDoneProducing rs" "awaited rs' = awaited rs"
      "consumers rs' = (consumers rs)[i := c']"
    and c1: "c_pc c' = AtQueueTest \<longrightarrow> isDoneProducing rs"
    and c2: "c_pc c' = ConsumerDone \<longrightarrow> isDoneProducing rs \<and> queue rs' = []"
    and c3: "c_pc c' \<noteq> InProcessBatch \<longrightarrow> c_batch c' = []"
    and q2: "queue rs' \<noteq> queue rs \<longrightarrow> (\<forall>k < length (consumers rs). c_pc (consumers rs ! k) \<noteq> ConsumerDone)"
  shows "ctl_ok bl0 n rs'"
proof -
  have nt: "awaited rs \<noteq> Some Terminated" using ok i nd by (rule not_terminated_if)
  have old: "length (consumers rs) = n" "\<exists>pre. bl0 = pre @ p_rest rs"
    "isDoneProducing rs \<longleftrightarrow> p_pc rs = ProducerDone"
    "p_pc rs \<noteq> Putting \<longrightarrow> p_caught rs \<or> p_rest rs = []"
    using ok unfolding ctl_ok_def by blast+
  have each: "(c_pc (consumers rs ! k) = AtQueueTest \<longrightarrow> isDoneProducing rs) \<and>
        (c_pc (consumers rs ! k) = ConsumerDone \<longrightarrow> isDoneProducing rs \<and> queue rs = []) \<and>
        (c_pc (consumers rs ! k) \<noteq> InProcessBatch \<longrightarrow> c_batch (consumers rs ! k) = [])"
    if "k < length (consumers rs)" for k
    using ok that unfolding ctl_ok_def by blast
  have new: "(c_pc (consumers rs' ! k) = AtQueueTest \<longrightarrow> isDoneProducing rs') \<and>
        (c_pc (consumers rs' ! k) = ConsumerDone \<longrightarrow> isDoneProducing rs' \<and> queue rs' = []) \<and>
        (c_pc (consumers rs' ! k) \<noteq> InProcessBatch \<longrightarrow> c_batch (consumers rs' ! k) = [])"
    if k: "k < length (consumers rs')" for k
  proof (cases "k = i")
    case True
    then show ?thesis using i same c1 c2 c3 by simp
  next
    case False
    have k': "k < length (consumers rs)" using k same by simp
    have "c_pc (consumers rs ! k) = ConsumerDone \<longrightarrow> queue rs' = []"
      using each [OF k'] q2 k' by (cases "queue rs' = queue rs") auto
    then show ?thesis using False each [OF k'] same by simp
  qed
  show ?thesis
    unfolding ctl_ok_def
  proof (intro conjI)
    show "length (consumers rs') = n" using old same by simp
    show "\<exists>pre. bl0 = pre @ p_rest rs'" using old same by simp
    show "isDoneProducing rs' \<longleftrightarrow> p_pc rs' = ProducerDone" using old same by simp
    show "p_pc rs' \<noteq> Putting \<longrightarrow> p_caught rs' \<or> p_rest rs' = []" using old same by simp
    show "\<forall>i<length (consumers rs').
       (c_pc (consumers rs' ! i) = AtQueueTest \<longrightarrow> isDoneProducing rs') \<and>
       (c_pc (consumers rs' ! i) = ConsumerDone \<longrightarrow> isDoneProducing rs' \<and> queue rs' = []) \<and>
       (c_pc (consumers rs' ! i) \<noteq> InProcessBatch \<longrightarrow> c_batch (consumers rs' ! i) = [])"
      using new by blast
    show "awaited rs' = Some Terminated \<longrightarrow> pool_terminated rs'" using nt same by simp
  qed
qed

lemma ctl_ok_consumer:
  assumes ok: "ctl_ok bl0 n rs" and i: "i < length (consumers rs)"
  shows "ctl_ok bl0 n (consumerTask_step i rs)"
proof -
  define c where "c = consumers rs ! i"
  have ci: "(c_pc c = AtQueueTest \<longrightarrow> isDoneProducing rs) \<and>
        (c_pc c = ConsumerDone \<longrightarrow> isDoneProducing rs \<and> queue rs = []) \<and>
        (c_pc c \<noteq> InProcessBatch \<longrightarrow> c_batch c = [])"
    using ok i unfolding ctl_ok_def c_def by blast
  have nodone: "\<forall>k < length (consumers rs). c_pc (consumers rs ! k) \<noteq> ConsumerDone"
    if "queue rs \<noteq> []"
    using ok that unfolding ctl_ok_def by blast
  show ?thesis
  proof (cases "c_pc c")
    case AtLoopTest
    show ?thesis
    proof (cases "isDoneProducing rs")
      case True
      then have st: "consumerTask_step i rs
          = rs\<lparr>consumers := (consumers rs)[i := c\<lparr>c_pc := AtQueueTest\<rparr>]\<rparr>"
        using AtLoopTest by (simp add: consumerTask_step_def c_def [symmetric])
      show ?thesis unfolding st
        by (rule ctl_ok_consumer_update [OF ok i, where c' = "c\<lparr>c_pc := AtQueueTest\<rparr>"])
          (use AtLoopTest ci True in \<open>simp_all add: c_def [symmetric]\<close>)
    next
      case False
      then have st: "consumerTask_step i rs
          = rs\<lparr>consumers := (consumers rs)[i := c\<lparr>c_pc := AtPoll\<rparr>]\<rparr>"
        using AtLoopTest by (simp add: consumerTask_step_def c_def [symmetric])
      show ?thesis unfolding st
        by (rule ctl_ok_consumer_update [OF ok i, where c' = "c\<lparr>c_pc := AtPoll\<rparr>"])
          (use AtLoopTest ci False in \<open>simp_all add: c_def [symmetric]\<close>)
    qed
  next
    case AtQueueTest
    show ?thesis
    proof (cases "queue rs = []")
      case True
      then have st: "consumerTask_step i rs
          = rs\<lparr>consumers := (consumers rs)[i := c\<lparr>c_pc := ConsumerDone\<rparr>]\<rparr>"
        using AtQueueTest by (simp add: consumerTask_step_def c_def [symmetric])
      show ?thesis unfolding st
        by (rule ctl_ok_consumer_update [OF ok i, where c' = "c\<lparr>c_pc := ConsumerDone\<rparr>"])
          (use AtQueueTest ci True in \<open>simp_all add: c_def [symmetric]\<close>)
    next
      case False
      then have st: "consumerTask_step i rs
          = rs\<lparr>consumers := (consumers rs)[i := c\<lparr>c_pc := AtPoll\<rparr>]\<rparr>"
        using AtQueueTest by (simp add: consumerTask_step_def c_def [symmetric])
      show ?thesis unfolding st
        by (rule ctl_ok_consumer_update [OF ok i, where c' = "c\<lparr>c_pc := AtPoll\<rparr>"])
          (use AtQueueTest ci False in \<open>simp_all add: c_def [symmetric]\<close>)
    qed
  next
    case AtPoll
    show ?thesis
    proof (cases "queue rs")
      case Nil
      then show ?thesis using ok AtPoll by (simp add: consumerTask_step_def c_def [symmetric])
    next
      case (Cons b rest)
      then have st: "consumerTask_step i rs
          = rs\<lparr>queue := rest, consumers := (consumers rs)
                 [i := c\<lparr>c_pc := InProcessBatch, c_batch := b, c_i := 0\<rparr>]\<rparr>"
        using AtPoll by (simp add: consumerTask_step_def c_def [symmetric])
      have nd: "\<forall>k < length (consumers rs). c_pc (consumers rs ! k) \<noteq> ConsumerDone"
        using nodone Cons by simp
      show ?thesis unfolding st
        by (rule ctl_ok_consumer_update [OF ok i,
              where c' = "c\<lparr>c_pc := InProcessBatch, c_batch := b, c_i := 0\<rparr>"])
          (use AtPoll ci Cons nd in \<open>auto simp add: c_def [symmetric]\<close>)
    qed
  next
    case InProcessBatch
    show ?thesis
    proof (cases "c_batch c")
      case Nil
      then have st: "consumerTask_step i rs
          = rs\<lparr>consumers := (consumers rs)[i := c\<lparr>c_pc := AtLoopTest\<rparr>]\<rparr>"
        using InProcessBatch by (simp add: consumerTask_step_def c_def [symmetric])
      show ?thesis unfolding st
        by (rule ctl_ok_consumer_update [OF ok i, where c' = "c\<lparr>c_pc := AtLoopTest\<rparr>"])
          (use InProcessBatch ci Nil in \<open>simp_all add: c_def [symmetric]\<close>)
    next
      case (Cons a rest)
      show ?thesis
      proof (cases "c_i c < length (j_heap rs a)")
        case True
        then have st: "consumerTask_step i rs
          = rs\<lparr>j_heap := (j_heap rs)(a := (j_heap rs a)[c_i c := j_heap rs a ! c_i c * 2]),
                consumers := (consumers rs)[i := c\<lparr>c_i := c_i c + 1\<rparr>]\<rparr>"
          using InProcessBatch Cons by (simp add: consumerTask_step_def c_def [symmetric])
        show ?thesis unfolding st
          by (rule ctl_ok_consumer_update [OF ok i, where c' = "c\<lparr>c_i := c_i c + 1\<rparr>"])
            (use InProcessBatch ci Cons in \<open>simp_all add: c_def [symmetric]\<close>)
      next
        case False
        then have st: "consumerTask_step i rs
          = rs\<lparr>consumers := (consumers rs)[i := c\<lparr>c_batch := rest, c_i := 0\<rparr>]\<rparr>"
          using InProcessBatch Cons by (simp add: consumerTask_step_def c_def [symmetric])
        show ?thesis unfolding st
          by (rule ctl_ok_consumer_update [OF ok i, where c' = "c\<lparr>c_batch := rest, c_i := 0\<rparr>"])
            (use InProcessBatch ci Cons in \<open>simp_all add: c_def [symmetric]\<close>)
      qed
    qed
  next
    case ConsumerDone
    then show ?thesis using ok by (simp add: consumerTask_step_def c_def [symmetric])
  qed
qed

lemma ctl_ok_poll_timeout:
  assumes ok: "ctl_ok bl0 n rs" and i: "i < length (consumers rs)"
  shows "ctl_ok bl0 n (poll_times_out i rs)"
proof (cases "c_pc (consumers rs ! i) = AtPoll \<and> queue rs = []")
  case True
  define c where "c = consumers rs ! i"
  have ci: "c_pc c \<noteq> InProcessBatch \<longrightarrow> c_batch c = []"
    using ok i unfolding ctl_ok_def c_def by blast
  have st: "poll_times_out i rs = rs\<lparr>consumers := (consumers rs)[i := c\<lparr>c_pc := AtLoopTest\<rparr>]\<rparr>"
    using True by (simp add: poll_times_out_def c_def [symmetric] Let_def)
  show ?thesis unfolding st
    by (rule ctl_ok_consumer_update [OF ok i, where c' = "c\<lparr>c_pc := AtLoopTest\<rparr>"])
      (use True ci in \<open>simp_all add: c_def [symmetric]\<close>)
next
  case False
  then show ?thesis using ok by (auto simp add: poll_times_out_def Let_def)
qed

lemma ctl_ok_await:
  assumes "ctl_ok bl0 n rs"
  shows "ctl_ok bl0 n (awaitTermination_step r rs)"
  using assms
  by (cases r) (auto simp add: awaitTermination_step_def ctl_ok_def pool_terminated_def)

lemma ctl_ok_step:
  assumes "ctl_ok bl0 n rs"
  shows "ctl_ok bl0 n (java_step capacity e rs)"
  using assms
  by (cases e)
    (simp_all add: java_step_def ctl_ok_produce ctl_ok_interrupt ctl_ok_consumer
      ctl_ok_poll_timeout ctl_ok_await)

subsection \<open>The memory invariant\<close>

lemma held_update_same:
  "i < length cs \<Longrightarrow> c_batch c' = c_batch (cs ! i) \<Longrightarrow> held (cs[i := c']) = held cs"
proof (induction cs arbitrary: i)
  case Nil
  then show ?case by simp
next
  case (Cons c cs)
  then show ?case by (cases i) (simp_all add: held_def)
qed

lemma mset_held_update:
  "i < length cs \<Longrightarrow>
     mset (held (cs[i := c'])) + mset (c_batch (cs ! i)) = mset (held cs) + mset (c_batch c')"
proof (induction cs arbitrary: i)
  case Nil
  then show ?case by simp
next
  case (Cons c cs)
  show ?case
  proof (cases i)
    case 0
    then show ?thesis by (simp add: held_def)
  next
    case (Suc k)
    then have "k < length cs" using Cons.prems by simp
    from Cons.IH [OF this] Suc show ?thesis by (simp add: held_def)
  qed
qed

lemma held_mem: "i < length cs \<Longrightarrow> a \<in> set (c_batch (cs ! i)) \<Longrightarrow> a \<in> set (held cs)"
  by (auto simp add: held_def)

lemma held_disjoint:
  "distinct (held cs) \<Longrightarrow> i < length cs \<Longrightarrow> k < length cs \<Longrightarrow> i \<noteq> k \<Longrightarrow>
     a \<in> set (c_batch (cs ! i)) \<Longrightarrow> a \<notin> set (c_batch (cs ! k))"
proof (induction cs arbitrary: i k)
  case Nil
  then show ?case by simp
next
  case (Cons c cs)
  have d: "distinct (c_batch c)" "distinct (held cs)" "set (c_batch c) \<inter> set (held cs) = {}"
    using Cons.prems(1) by (simp_all add: held_def)
  show ?case
  proof (cases i)
    case i0: 0
    then obtain k' where k: "k = Suc k'" using Cons.prems(4) by (cases k) auto
    then have "k' < length cs" using Cons.prems(3) by simp
    then have "set (c_batch (cs ! k')) \<subseteq> set (held cs)" using held_mem [of k' cs] by blast
    with d(3) Cons.prems(5) i0 k show ?thesis by auto
  next
    case iS: (Suc i')
    show ?thesis
    proof (cases k)
      case 0
      have "i' < length cs" using Cons.prems(2) iS by simp
      then have "set (c_batch (cs ! i')) \<subseteq> set (held cs)" using held_mem [of i' cs] by blast
      with d(3) Cons.prems(5) iS 0 show ?thesis by auto
    next
      case (Suc k')
      then show ?thesis using Cons.IH [of i' k'] Cons.prems iS d by simp
    qed
  qed
qed

lemma held_distinct_batch:
  "distinct (held cs) \<Longrightarrow> i < length cs \<Longrightarrow> distinct (c_batch (cs ! i))"
proof (induction cs arbitrary: i)
  case Nil
  then show ?case by simp
next
  case (Cons c cs)
  then show ?case by (cases i) (simp_all add: held_def)
qed

lemma distinct_remove_one:
  assumes "distinct xs" "mset xs = mset ys + {#a#}"
  shows "distinct ys \<and> a \<notin> set ys \<and> set xs = insert a (set ys)"
proof -
  have m: "mset xs = mset (a # ys)" using assms(2) by simp
  then have "distinct (a # ys)" using assms(1) by (metis mset_eq_imp_distinct_iff)
  moreover have "set xs = set (a # ys)" using m by (rule mset_eq_setD)
  ultimately show ?thesis by simp
qed

lemma distinct_same_mset:
  assumes "distinct xs" "mset ys = mset xs"
  shows "distinct ys \<and> set ys = set xs"
  using assms by (metis mset_eq_imp_distinct_iff mset_eq_setD)

text \<open>Unfolded form of the memory invariant.\<close>

lemma mem_okD:
  assumes "mem_ok h0 bl0 rs"
  shows "distinct (pend rs)" "set (pend rs) \<subseteq> set (concat bl0)"
    "\<And>a. a \<in> set (concat (p_rest rs)) \<union> set (concat (queue rs)) \<Longrightarrow> j_heap rs a = h0 a"
    "\<And>i a rest. i < length (consumers rs) \<Longrightarrow> c_batch (consumers rs ! i) = a # rest \<Longrightarrow>
        c_i (consumers rs ! i) \<le> length (h0 a) \<and>
        j_heap rs a = map (\<lambda>e. 2 * e) (take (c_i (consumers rs ! i)) (h0 a))
                       @ drop (c_i (consumers rs ! i)) (h0 a) \<and>
        (\<forall>a' \<in> set rest. j_heap rs a' = h0 a')"
    "\<And>a. a \<in> set (concat bl0) \<Longrightarrow> a \<notin> set (pend rs) \<Longrightarrow> j_heap rs a = map (\<lambda>e. 2 * e) (h0 a)"
    "\<And>a. a \<notin> set (concat bl0) \<Longrightarrow> j_heap rs a = h0 a"
proof -
  show "distinct (pend rs)" "set (pend rs) \<subseteq> set (concat bl0)"
    using assms unfolding mem_ok_def by blast+
  show "j_heap rs a = h0 a" if "a \<in> set (concat (p_rest rs)) \<union> set (concat (queue rs))" for a
    using assms that unfolding mem_ok_def by blast
  show "c_i (consumers rs ! i) \<le> length (h0 a) \<and>
        j_heap rs a = map (\<lambda>e. 2 * e) (take (c_i (consumers rs ! i)) (h0 a))
                       @ drop (c_i (consumers rs ! i)) (h0 a) \<and>
        (\<forall>a' \<in> set rest. j_heap rs a' = h0 a')"
    if "i < length (consumers rs)" "c_batch (consumers rs ! i) = a # rest" for i a rest
  proof -
    have "case c_batch (consumers rs ! i) of
          [] \<Rightarrow> True
        | a # rest \<Rightarrow>
            c_i (consumers rs ! i) \<le> length (h0 a) \<and>
            j_heap rs a = map (\<lambda>e. 2 * e) (take (c_i (consumers rs ! i)) (h0 a))
                           @ drop (c_i (consumers rs ! i)) (h0 a) \<and>
            (\<forall>a' \<in> set rest. j_heap rs a' = h0 a')"
      using assms that(1) unfolding mem_ok_def by blast
    with that(2) show ?thesis by simp
  qed
  show "j_heap rs a = map (\<lambda>e. 2 * e) (h0 a)" if "a \<in> set (concat bl0)" "a \<notin> set (pend rs)" for a
    using assms that unfolding mem_ok_def by blast
  show "j_heap rs a = h0 a" if "a \<notin> set (concat bl0)" for a
    using assms that unfolding mem_ok_def by blast
qed

lemma mem_okI:
  assumes "distinct (pend rs)" "set (pend rs) \<subseteq> set (concat bl0)"
    "\<And>a. a \<in> set (concat (p_rest rs)) \<union> set (concat (queue rs)) \<Longrightarrow> j_heap rs a = h0 a"
    "\<And>i a rest. i < length (consumers rs) \<Longrightarrow> c_batch (consumers rs ! i) = a # rest \<Longrightarrow>
        c_i (consumers rs ! i) \<le> length (h0 a) \<and>
        j_heap rs a = map (\<lambda>e. 2 * e) (take (c_i (consumers rs ! i)) (h0 a))
                       @ drop (c_i (consumers rs ! i)) (h0 a) \<and>
        (\<forall>a' \<in> set rest. j_heap rs a' = h0 a')"
    "\<And>a. a \<in> set (concat bl0) \<Longrightarrow> a \<notin> set (pend rs) \<Longrightarrow> j_heap rs a = map (\<lambda>e. 2 * e) (h0 a)"
    "\<And>a. a \<notin> set (concat bl0) \<Longrightarrow> j_heap rs a = h0 a"
  shows "mem_ok h0 bl0 rs"
  unfolding mem_ok_def
proof (intro conjI ballI allI impI)
  show "distinct (pend rs)" "set (pend rs) \<subseteq> set (concat bl0)" by (rule assms)+
  show "j_heap rs a = h0 a" if "a \<in> set (concat (p_rest rs)) \<union> set (concat (queue rs))" for a
    using that by (rule assms(3))
  show "case c_batch (consumers rs ! i) of
          [] \<Rightarrow> True
        | a # rest \<Rightarrow>
            c_i (consumers rs ! i) \<le> length (h0 a) \<and>
            j_heap rs a = map (\<lambda>e. 2 * e) (take (c_i (consumers rs ! i)) (h0 a))
                           @ drop (c_i (consumers rs ! i)) (h0 a) \<and>
            (\<forall>a' \<in> set rest. j_heap rs a' = h0 a')"
    if "i < length (consumers rs)" for i
    using assms(4) [OF that] by (cases "c_batch (consumers rs ! i)") simp_all
  show "j_heap rs a = map (\<lambda>e. 2 * e) (h0 a)" if "a \<in> set (concat bl0) - set (pend rs)" for a
    using that assms(5) by simp
  show "j_heap rs a = h0 a" if "a \<notin> set (concat bl0)" for a
    using that by (rule assms(6))
qed

text \<open>A step that changes nothing but the control state of one consumer.\<close>

lemma mem_ok_pc_only:
  assumes ok: "mem_ok h0 bl0 rs" and i: "i < length (consumers rs)"
    and same: "j_heap rs' = j_heap rs" "p_rest rs' = p_rest rs" "queue rs' = queue rs"
      "consumers rs' = (consumers rs)[i := c']"
    and c: "c_batch c' = c_batch (consumers rs ! i)" "c_i c' = c_i (consumers rs ! i)"
  shows "mem_ok h0 bl0 rs'"
proof -
  note d = mem_okD [OF ok]
  have h: "held (consumers rs') = held (consumers rs)"
    using i same c by (simp add: held_update_same)
  then have p: "pend rs' = pend rs" using same by (simp add: pend_def)
  have cb: "c_batch (consumers rs' ! k) = c_batch (consumers rs ! k) \<and>
            c_i (consumers rs' ! k) = c_i (consumers rs ! k)" if "k < length (consumers rs)" for k
    using that i same c by (cases "k = i") simp_all
  show ?thesis
  proof (rule mem_okI)
    show "distinct (pend rs')" "set (pend rs') \<subseteq> set (concat bl0)" using d(1,2) p by simp_all
    show "j_heap rs' a = h0 a" if "a \<in> set (concat (p_rest rs')) \<union> set (concat (queue rs'))" for a
      using that d(3) same by simp
    show "c_i (consumers rs' ! k) \<le> length (h0 a) \<and>
        j_heap rs' a = map (\<lambda>e. 2 * e) (take (c_i (consumers rs' ! k)) (h0 a))
                       @ drop (c_i (consumers rs' ! k)) (h0 a) \<and>
        (\<forall>a' \<in> set rest. j_heap rs' a' = h0 a')"
      if "k < length (consumers rs')" "c_batch (consumers rs' ! k) = a # rest" for k a rest
    proof -
      have k: "k < length (consumers rs)" using that same by simp
      with that cb [OF k] d(4) [of k a rest] same show ?thesis by simp
    qed
    show "j_heap rs' a = map (\<lambda>e. 2 * e) (h0 a)" if "a \<in> set (concat bl0)" "a \<notin> set (pend rs')" for a
      using that d(5) p same by simp
    show "j_heap rs' a = h0 a" if "a \<notin> set (concat bl0)" for a
      using that d(6) same by simp
  qed
qed

lemma mem_ok_frame:
  assumes "mem_ok h0 bl0 rs" and "j_heap rs' = j_heap rs" and "p_rest rs' = p_rest rs"
    and "queue rs' = queue rs" and "consumers rs' = consumers rs"
  shows "mem_ok h0 bl0 rs'"
  using assms(1) unfolding mem_ok_def pend_def assms(2-5) .

lemma mem_ok_produce:
  assumes ok: "mem_ok h0 bl0 rs"
  shows "mem_ok h0 bl0 (produceBatches_step capacity rs)"
proof (cases "p_pc rs = Putting \<and> p_rest rs \<noteq> [] \<and> length (queue rs) < capacity")
  case True
  then obtain b rest where br: "p_rest rs = b # rest" by (cases "p_rest rs") auto
  let ?rs' = "rs\<lparr>queue := queue rs @ [b], p_rest := rest\<rparr>"
  have st: "produceBatches_step capacity rs = ?rs'"
    using True br by (simp add: produceBatches_step_def)
  note d = mem_okD [OF ok]
  have m: "mset (pend ?rs') = mset (pend rs)" using br by (simp add: pend_def)
  note p = distinct_same_mset [OF d(1) m]
  show ?thesis
    unfolding st
  proof (rule mem_okI)
    show "distinct (pend ?rs')" "set (pend ?rs') \<subseteq> set (concat bl0)" using p d(2) by simp_all
    show "j_heap ?rs' a = h0 a" if "a \<in> set (concat (p_rest ?rs')) \<union> set (concat (queue ?rs'))" for a
      using that d(3) [of a] br by auto
    show "c_i (consumers ?rs' ! k) \<le> length (h0 a) \<and>
        j_heap ?rs' a = map (\<lambda>e. 2 * e) (take (c_i (consumers ?rs' ! k)) (h0 a))
                       @ drop (c_i (consumers ?rs' ! k)) (h0 a) \<and>
        (\<forall>a' \<in> set rest. j_heap ?rs' a' = h0 a')"
      if "k < length (consumers ?rs')" "c_batch (consumers ?rs' ! k) = a # rest" for k a rest
      using that d(4) [of k a rest] by simp
    show "j_heap ?rs' a = map (\<lambda>e. 2 * e) (h0 a)" if "a \<in> set (concat bl0)" "a \<notin> set (pend ?rs')" for a
      using that d(5) [of a] p by simp
    show "j_heap ?rs' a = h0 a" if "a \<notin> set (concat bl0)" for a
      using that d(6) by simp
  qed
next
  case False
  note d = mem_okD [OF ok]
  have same: "j_heap (produceBatches_step capacity rs) = j_heap rs"
    "p_rest (produceBatches_step capacity rs) = p_rest rs"
    "queue (produceBatches_step capacity rs) = queue rs"
    "consumers (produceBatches_step capacity rs) = consumers rs"
    using False
    by (auto simp add: produceBatches_step_def split: producer_pc.splits list.splits)
  show ?thesis
    using ok same by (rule mem_ok_frame)
qed

lemma mem_ok_interrupt: "mem_ok h0 bl0 rs \<Longrightarrow> mem_ok h0 bl0 (put_interrupted rs)"
  by (erule mem_ok_frame) (simp_all add: put_interrupted_def)

lemma mem_ok_await: "mem_ok h0 bl0 rs \<Longrightarrow> mem_ok h0 bl0 (awaitTermination_step r rs)"
  by (erule mem_ok_frame) (cases r; simp add: awaitTermination_step_def)+

lemma mem_ok_poll_timeout:
  assumes ok: "mem_ok h0 bl0 rs" and i: "i < length (consumers rs)"
  shows "mem_ok h0 bl0 (poll_times_out i rs)"
proof (cases "c_pc (consumers rs ! i) = AtPoll \<and> queue rs = []")
  case True
  define c where "c = consumers rs ! i"
  have st: "poll_times_out i rs = rs\<lparr>consumers := (consumers rs)[i := c\<lparr>c_pc := AtLoopTest\<rparr>]\<rparr>"
    using True by (simp add: poll_times_out_def c_def [symmetric] Let_def)
  show ?thesis unfolding st
    by (rule mem_ok_pc_only [OF ok i, where c' = "c\<lparr>c_pc := AtLoopTest\<rparr>"])
      (simp_all add: c_def)
next
  case False
  then show ?thesis using ok by (auto simp add: poll_times_out_def Let_def)
qed

lemma mem_ok_take:
  assumes ok: "mem_ok h0 bl0 rs" and i: "i < length (consumers rs)"
    and q: "queue rs = b # rest" and e: "c_batch (consumers rs ! i) = []"
  shows "mem_ok h0 bl0 (rs\<lparr>queue := rest, consumers := (consumers rs)
            [i := (consumers rs ! i)\<lparr>c_pc := InProcessBatch, c_batch := b, c_i := 0\<rparr>]\<rparr>)"
    (is "mem_ok h0 bl0 ?rs'")
proof -
  let ?c' = "(consumers rs ! i)\<lparr>c_pc := InProcessBatch, c_batch := b, c_i := 0\<rparr>"
  note d = mem_okD [OF ok]
  have "mset (held ((consumers rs)[i := ?c'])) + mset (c_batch (consumers rs ! i))
          = mset (held (consumers rs)) + mset (c_batch ?c')"
    using i by (rule mset_held_update)
  then have "mset (held ((consumers rs)[i := ?c'])) = mset (held (consumers rs)) + mset b"
    using e by simp
  then have m: "mset (pend ?rs') = mset (pend rs)" using q by (simp add: pend_def)
  note p = distinct_same_mset [OF d(1) m]
  have inq: "j_heap rs a = h0 a" if "a \<in> set b" for a
    using d(3) [of a] that q by simp
  show ?thesis
  proof (rule mem_okI)
    show "distinct (pend ?rs')" "set (pend ?rs') \<subseteq> set (concat bl0)" using p d(2) by simp_all
    show "j_heap ?rs' a = h0 a" if "a \<in> set (concat (p_rest ?rs')) \<union> set (concat (queue ?rs'))" for a
      using that d(3) [of a] q by auto
    show "c_i (consumers ?rs' ! k) \<le> length (h0 a) \<and>
        j_heap ?rs' a = map (\<lambda>e. 2 * e) (take (c_i (consumers ?rs' ! k)) (h0 a))
                       @ drop (c_i (consumers ?rs' ! k)) (h0 a) \<and>
        (\<forall>a' \<in> set r. j_heap ?rs' a' = h0 a')"
      if "k < length (consumers ?rs')" "c_batch (consumers ?rs' ! k) = a # r" for k a r
    proof (cases "k = i")
      case True
      then have "b = a # r" using that i by simp
      then show ?thesis using True i inq by simp
    next
      case False
      then show ?thesis using that d(4) [of k a r] by simp
    qed
    show "j_heap ?rs' a = map (\<lambda>e. 2 * e) (h0 a)" if "a \<in> set (concat bl0)" "a \<notin> set (pend ?rs')" for a
      using that d(5) [of a] p by simp
    show "j_heap ?rs' a = h0 a" if "a \<notin> set (concat bl0)" for a
      using that d(6) by simp
  qed
qed

lemma mem_ok_element:
  assumes ok: "mem_ok h0 bl0 rs" and i: "i < length (consumers rs)"
    and cb: "c_batch (consumers rs ! i) = a # rest"
    and lt: "c_i (consumers rs ! i) < length (j_heap rs a)"
  shows "mem_ok h0 bl0
     (rs\<lparr>j_heap := (j_heap rs)
            (a := (j_heap rs a)[c_i (consumers rs ! i) := j_heap rs a ! c_i (consumers rs ! i) * 2]),
         consumers := (consumers rs)
            [i := (consumers rs ! i)\<lparr>c_i := c_i (consumers rs ! i) + 1\<rparr>]\<rparr>)"
    (is "mem_ok h0 bl0 ?rs'")
proof -
  let ?k = "c_i (consumers rs ! i)"
  let ?c' = "(consumers rs ! i)\<lparr>c_i := ?k + 1\<rparr>"
  note d = mem_okD [OF ok]
  note mine = d(4) [OF i cb]
  have ha: "j_heap rs a = map (\<lambda>e. 2 * e) (take ?k (h0 a)) @ drop ?k (h0 a)" using mine by blast
  then have len: "length (j_heap rs a) = length (h0 a)" using mine by simp
  then have kv: "?k < length (h0 a)" using lt by simp
  have new: "(j_heap rs a)[?k := j_heap rs a ! ?k * 2]
               = map (\<lambda>e. 2 * e) (take (Suc ?k) (h0 a)) @ drop (Suc ?k) (h0 a)"
    using double_next [OF kv, of "\<lambda>e. 2 * e"] by (simp add: ha mult.commute)
  have h: "held (consumers ?rs') = held (consumers rs)"
    using i by (simp add: held_update_same)
  then have p: "pend ?rs' = pend rs" by (simp add: pend_def)
  have ah: "a \<in> set (held (consumers rs))" using held_mem [OF i, of a] cb by simp
  then have ap: "a \<in> set (pend rs)" by (simp add: pend_def)
  have dh: "distinct (held (consumers rs))" using d(1) by (simp add: pend_def)
  have anq: "a \<notin> set (concat (p_rest rs)) \<union> set (concat (queue rs))"
    using d(1) ah by (auto simp add: pend_def)
  have ar: "a \<notin> set rest" using held_distinct_batch [OF dh i] cb by simp
  have others: "a \<notin> set (c_batch (consumers rs ! k))" if "k < length (consumers rs)" "k \<noteq> i" for k
    using held_disjoint [OF dh i that(1), of a] that(2) cb by auto
  show ?thesis
  proof (rule mem_okI)
    show "distinct (pend ?rs')" "set (pend ?rs') \<subseteq> set (concat bl0)" using p d(1,2) by simp_all
    show "j_heap ?rs' x = h0 x" if "x \<in> set (concat (p_rest ?rs')) \<union> set (concat (queue ?rs'))" for x
    proof -
      have "x \<noteq> a" using that anq by auto
      then show ?thesis using that d(3) [of x] by simp
    qed
    show "c_i (consumers ?rs' ! k) \<le> length (h0 x) \<and>
        j_heap ?rs' x = map (\<lambda>e. 2 * e) (take (c_i (consumers ?rs' ! k)) (h0 x))
                       @ drop (c_i (consumers ?rs' ! k)) (h0 x) \<and>
        (\<forall>a' \<in> set r. j_heap ?rs' a' = h0 a')"
      if "k < length (consumers ?rs')" "c_batch (consumers ?rs' ! k) = x # r" for k x r
    proof (cases "k = i")
      case True
      then have xr: "x = a" "r = rest" using that i cb by simp_all
      have "\<forall>a' \<in> set rest. j_heap ?rs' a' = h0 a'" using mine ar by auto
      then show ?thesis using True xr i kv new by simp
    next
      case False
      have k: "k < length (consumers rs)" using that by simp
      have cbk: "c_batch (consumers rs ! k) = x # r" using that False by simp
      have "a \<notin> set (x # r)" using others [OF k False] cbk by simp
      then have "x \<noteq> a" "\<forall>a' \<in> set r. a' \<noteq> a" by auto
      then show ?thesis using d(4) [OF k cbk] False by simp
    qed
    show "j_heap ?rs' x = map (\<lambda>e. 2 * e) (h0 x)" if "x \<in> set (concat bl0)" "x \<notin> set (pend ?rs')" for x
    proof -
      have "x \<noteq> a" using that ap p by auto
      then show ?thesis using that d(5) [of x] p by simp
    qed
    show "j_heap ?rs' x = h0 x" if "x \<notin> set (concat bl0)" for x
    proof -
      have "x \<noteq> a" using that ap d(2) by auto
      then show ?thesis using that d(6) [of x] by simp
    qed
  qed
qed

lemma mem_ok_next_image:
  assumes ok: "mem_ok h0 bl0 rs" and i: "i < length (consumers rs)"
    and cb: "c_batch (consumers rs ! i) = a # rest"
    and ge: "\<not> c_i (consumers rs ! i) < length (j_heap rs a)"
  shows "mem_ok h0 bl0
     (rs\<lparr>consumers := (consumers rs)[i := (consumers rs ! i)\<lparr>c_batch := rest, c_i := 0\<rparr>]\<rparr>)"
    (is "mem_ok h0 bl0 ?rs'")
proof -
  let ?k = "c_i (consumers rs ! i)"
  let ?c' = "(consumers rs ! i)\<lparr>c_batch := rest, c_i := 0\<rparr>"
  note d = mem_okD [OF ok]
  note mine = d(4) [OF i cb]
  have ha: "j_heap rs a = map (\<lambda>e. 2 * e) (take ?k (h0 a)) @ drop ?k (h0 a)" using mine by blast
  then have len: "length (j_heap rs a) = length (h0 a)" using mine by simp
  then have kk: "?k = length (h0 a)" using ge mine by simp
  have fin: "j_heap rs a = map (\<lambda>e. 2 * e) (h0 a)" using ha kk by simp
  have "mset (held ((consumers rs)[i := ?c'])) + mset (c_batch (consumers rs ! i))
          = mset (held (consumers rs)) + mset (c_batch ?c')"
    using i by (rule mset_held_update)
  then have "mset (held (consumers rs)) = mset (held ((consumers rs)[i := ?c'])) + {#a#}"
    using cb by simp
  then have m: "mset (pend rs) = mset (pend ?rs') + {#a#}" by (simp add: pend_def)
  note p = distinct_remove_one [OF d(1) m]
  show ?thesis
  proof (rule mem_okI)
    show "distinct (pend ?rs')" using p by blast
    show "set (pend ?rs') \<subseteq> set (concat bl0)" using p d(2) by auto
    show "j_heap ?rs' x = h0 x" if "x \<in> set (concat (p_rest ?rs')) \<union> set (concat (queue ?rs'))" for x
      using that d(3) [of x] by simp
    show "c_i (consumers ?rs' ! k) \<le> length (h0 x) \<and>
        j_heap ?rs' x = map (\<lambda>e. 2 * e) (take (c_i (consumers ?rs' ! k)) (h0 x))
                       @ drop (c_i (consumers ?rs' ! k)) (h0 x) \<and>
        (\<forall>a' \<in> set r. j_heap ?rs' a' = h0 a')"
      if "k < length (consumers ?rs')" "c_batch (consumers ?rs' ! k) = x # r" for k x r
    proof (cases "k = i")
      case True
      then have "rest = x # r" using that i by simp
      then show ?thesis using True i mine by simp
    next
      case False
      then show ?thesis using that d(4) [of k x r] by simp
    qed
    show "j_heap ?rs' x = map (\<lambda>e. 2 * e) (h0 x)" if "x \<in> set (concat bl0)" "x \<notin> set (pend ?rs')" for x
    proof (cases "x = a")
      case True
      then show ?thesis using fin by simp
    next
      case False
      then have "x \<notin> set (pend rs)" using that p by simp
      then show ?thesis using that d(5) [of x] by simp
    qed
    show "j_heap ?rs' x = h0 x" if "x \<notin> set (concat bl0)" for x
      using that d(6) by simp
  qed
qed

lemma mem_ok_consumer:
  assumes ctl: "ctl_ok bl0 n rs" and ok: "mem_ok h0 bl0 rs" and i: "i < length (consumers rs)"
  shows "mem_ok h0 bl0 (consumerTask_step i rs)"
proof -
  define c where "c = consumers rs ! i"
  have c3: "c_pc c \<noteq> InProcessBatch \<longrightarrow> c_batch c = []"
    using ctl i unfolding ctl_ok_def c_def by blast
  show ?thesis
  proof (cases "c_pc c")
    case AtLoopTest
    show ?thesis
    proof (cases "isDoneProducing rs")
      case True
      then have st: "consumerTask_step i rs
          = rs\<lparr>consumers := (consumers rs)[i := c\<lparr>c_pc := AtQueueTest\<rparr>]\<rparr>"
        using AtLoopTest by (simp add: consumerTask_step_def c_def [symmetric])
      show ?thesis unfolding st
        by (rule mem_ok_pc_only [OF ok i, where c' = "c\<lparr>c_pc := AtQueueTest\<rparr>"])
          (simp_all add: c_def)
    next
      case False
      then have st: "consumerTask_step i rs
          = rs\<lparr>consumers := (consumers rs)[i := c\<lparr>c_pc := AtPoll\<rparr>]\<rparr>"
        using AtLoopTest by (simp add: consumerTask_step_def c_def [symmetric])
      show ?thesis unfolding st
        by (rule mem_ok_pc_only [OF ok i, where c' = "c\<lparr>c_pc := AtPoll\<rparr>"])
          (simp_all add: c_def)
    qed
  next
    case AtQueueTest
    show ?thesis
    proof (cases "queue rs = []")
      case True
      then have st: "consumerTask_step i rs
          = rs\<lparr>consumers := (consumers rs)[i := c\<lparr>c_pc := ConsumerDone\<rparr>]\<rparr>"
        using AtQueueTest by (simp add: consumerTask_step_def c_def [symmetric])
      show ?thesis unfolding st
        by (rule mem_ok_pc_only [OF ok i, where c' = "c\<lparr>c_pc := ConsumerDone\<rparr>"])
          (simp_all add: c_def)
    next
      case False
      then have st: "consumerTask_step i rs
          = rs\<lparr>consumers := (consumers rs)[i := c\<lparr>c_pc := AtPoll\<rparr>]\<rparr>"
        using AtQueueTest by (simp add: consumerTask_step_def c_def [symmetric])
      show ?thesis unfolding st
        by (rule mem_ok_pc_only [OF ok i, where c' = "c\<lparr>c_pc := AtPoll\<rparr>"])
          (simp_all add: c_def)
    qed
  next
    case AtPoll
    show ?thesis
    proof (cases "queue rs")
      case Nil
      then show ?thesis using ok AtPoll by (simp add: consumerTask_step_def c_def [symmetric])
    next
      case (Cons b rest)
      then have st: "consumerTask_step i rs
          = rs\<lparr>queue := rest, consumers := (consumers rs)
                 [i := (consumers rs ! i)\<lparr>c_pc := InProcessBatch, c_batch := b, c_i := 0\<rparr>]\<rparr>"
        using AtPoll by (simp add: consumerTask_step_def c_def [symmetric])
      have "c_batch (consumers rs ! i) = []" using c3 AtPoll by (simp add: c_def)
      then show ?thesis unfolding st by (rule mem_ok_take [OF ok i Cons])
    qed
  next
    case InProcessBatch
    show ?thesis
    proof (cases "c_batch c")
      case Nil
      then have st: "consumerTask_step i rs
          = rs\<lparr>consumers := (consumers rs)[i := c\<lparr>c_pc := AtLoopTest\<rparr>]\<rparr>"
        using InProcessBatch by (simp add: consumerTask_step_def c_def [symmetric])
      show ?thesis unfolding st
        by (rule mem_ok_pc_only [OF ok i, where c' = "c\<lparr>c_pc := AtLoopTest\<rparr>"])
          (simp_all add: c_def)
    next
      case (Cons a rest)
      then have cb: "c_batch (consumers rs ! i) = a # rest" by (simp add: c_def)
      show ?thesis
      proof (cases "c_i (consumers rs ! i) < length (j_heap rs a)")
        case True
        then have st: "consumerTask_step i rs
          = rs\<lparr>j_heap := (j_heap rs)
                  (a := (j_heap rs a)[c_i (consumers rs ! i) := j_heap rs a ! c_i (consumers rs ! i) * 2]),
                consumers := (consumers rs)
                  [i := (consumers rs ! i)\<lparr>c_i := c_i (consumers rs ! i) + 1\<rparr>]\<rparr>"
          using InProcessBatch Cons by (simp add: consumerTask_step_def c_def [symmetric])
        show ?thesis unfolding st by (rule mem_ok_element [OF ok i cb True])
      next
        case False
        then have st: "consumerTask_step i rs
          = rs\<lparr>consumers := (consumers rs)
                  [i := (consumers rs ! i)\<lparr>c_batch := rest, c_i := 0\<rparr>]\<rparr>"
          using InProcessBatch Cons by (simp add: consumerTask_step_def c_def [symmetric])
        show ?thesis unfolding st by (rule mem_ok_next_image [OF ok i cb False])
      qed
    qed
  next
    case ConsumerDone
    then show ?thesis using ok by (simp add: consumerTask_step_def c_def [symmetric])
  qed
qed

lemma java_inv_step:
  assumes "java_inv h0 bl0 n rs"
  shows "java_inv h0 bl0 n (java_step capacity e rs)"
proof -
  have c: "ctl_ok bl0 n rs" and m: "mem_ok h0 bl0 rs" using assms by (simp_all add: java_inv_def)
  have "mem_ok h0 bl0 (java_step capacity e rs)"
    using m c
    by (cases e)
      (simp_all add: java_step_def mem_ok_produce mem_ok_interrupt mem_ok_consumer [OF c]
        mem_ok_poll_timeout mem_ok_await)
  then show ?thesis using ctl_ok_step [OF c] by (simp add: java_inv_def)
qed

lemma java_inv_fold:
  "java_inv h0 bl0 n rs \<Longrightarrow> java_inv h0 bl0 n (fold (java_step capacity) sched rs)"
  by (induction sched arbitrary: rs) (simp_all add: java_inv_step)

lemma java_inv_start:
  "distinct (concat bl0) \<Longrightarrow> java_inv h bl0 n (java_start h bl0 n)"
  by (simp add: java_inv_def ctl_ok_start mem_ok_start)

text \<open>What the invariant says when the pool has terminated.\<close>

lemma java_inv_terminated:
  assumes inv: "java_inv h0 bl0 n rs" and n: "0 < n" and t: "awaited rs = Some Terminated"
    and nc: "\<not> p_caught rs"
  shows "(\<forall>a \<in> set (concat bl0). j_heap rs a = map (\<lambda>e. 2 * e) (h0 a)) \<and>
         (\<forall>a. a \<notin> set (concat bl0) \<longrightarrow> j_heap rs a = h0 a) \<and>
         p_rest rs = [] \<and> queue rs = [] \<and> isDoneProducing rs"
proof -
  have c: "ctl_ok bl0 n rs" and m: "mem_ok h0 bl0 rs" using inv by (simp_all add: java_inv_def)
  have len: "length (consumers rs) = n" using c unfolding ctl_ok_def by blast
  have pt: "pool_terminated rs" using c t unfolding ctl_ok_def by blast
  then have dn: "c_pc (consumers rs ! i) = ConsumerDone" if "i < n" for i
    using that len by (simp add: pool_terminated_def list_all_length)
  have each: "(c_pc (consumers rs ! i) = ConsumerDone \<longrightarrow> isDoneProducing rs \<and> queue rs = []) \<and>
        (c_pc (consumers rs ! i) \<noteq> InProcessBatch \<longrightarrow> c_batch (consumers rs ! i) = [])"
    if "i < n" for i
    using c that len unfolding ctl_ok_def by blast
  have fl: "isDoneProducing rs" and q: "queue rs = []" using each [OF n] dn [OF n] by simp_all
  have "p_pc rs = ProducerDone" using c fl unfolding ctl_ok_def by blast
  then have r: "p_rest rs = []" using c nc unfolding ctl_ok_def by auto
  have "c_batch c = []" if "c \<in> set (consumers rs)" for c
  proof -
    from that obtain i where "i < n" "c = consumers rs ! i" using len by (auto simp add: in_set_conv_nth)
    with each [of i] dn [of i] show ?thesis by simp
  qed
  then have "held (consumers rs) = []" by (simp add: held_def)
  with r q have p: "pend rs = []" by (simp add: pend_def)
  note d = mem_okD [OF m]
  show ?thesis using d(5) d(6) p r q fl by simp
qed

subsection \<open>Progress\<close>

text \<open>
  The pool never gets stuck: as long as the queue has room for one batch and there is a
  consumer, some thread can take a step that brings the run closer to a terminated pool.
\<close>

lemma sum_list_map_update:
  fixes f :: "'a \<Rightarrow> nat"
  assumes "i < length xs"
  shows "sum_list (map f (xs[i := y])) + f (xs ! i) = sum_list (map f xs) + f y"
  using assms
proof (induction xs arbitrary: i)
  case Nil
  then show ?case by simp
next
  case (Cons x xs)
  then show ?case by (cases i) simp_all
qed

lemma exit_dist_le: "exit_dist c \<le> 3"
  by (cases "c_pc c") (simp_all add: exit_dist_def)

lemma sum_exit_dist_le: "(\<Sum>c\<leftarrow>cs. exit_dist c) \<le> 3 * length cs"
proof (induction cs)
  case Nil
  then show ?case by simp
next
  case (Cons c cs)
  then show ?case using exit_dist_le [of c] by simp
qed

lemma ctl_left_bound: "ctl_left rs < 3 * length (consumers rs) + 3"
proof (cases "queue rs \<noteq> []")
  case True
  have "poll_dist (consumers rs ! 0) \<le> 2"
    by (cases "c_pc (consumers rs ! 0)") (simp_all add: poll_dist_def)
  then show ?thesis using True by (simp add: ctl_left_def)
next
  case False
  then show ?thesis using sum_exit_dist_le [of "consumers rs"] by (simp add: ctl_left_def)
qed

lemma closer_work:
  assumes l: "length (consumers rs') = length (consumers rs)"
    and w: "work_left h0 rs' < work_left h0 rs"
  shows "java_left h0 rs' < java_left h0 rs"
proof -
  let ?K = "3 * length (consumers rs) + 3"
  have "work_left h0 rs' * ?K + ctl_left rs' < work_left h0 rs' * ?K + ?K"
    using ctl_left_bound [of rs'] l by simp
  also have "\<dots> = (work_left h0 rs' + 1) * ?K" by (simp add: algebra_simps)
  also have "\<dots> \<le> work_left h0 rs * ?K"
    using w by (intro mult_le_mono1) simp
  finally show ?thesis using l by (simp add: java_left_def)
qed

lemma closer_ctl:
  assumes "length (consumers rs') = length (consumers rs)"
    and "work_left h0 rs' = work_left h0 rs" and "ctl_left rs' < ctl_left rs"
  shows "java_left h0 rs' < java_left h0 rs"
  using assms by (simp add: java_left_def)

lemma work_left_consumer:
  assumes "i < length (consumers rs)" and "consumers rs' = (consumers rs)[i := c']"
    and "p_pc rs' = p_pc rs" and "p_rest rs' = p_rest rs" and "queue rs' = queue rs"
  shows "work_left h0 rs' + work_c h0 (consumers rs ! i) = work_left h0 rs + work_c h0 c'"
  unfolding work_left_def assms(2-5)
  using sum_list_map_update [OF assms(1), of "work_c h0" c'] by simp

lemma work_left_take:
  assumes "i < length (consumers rs)" and "consumers rs' = (consumers rs)[i := c']"
    and "p_pc rs' = p_pc rs" and "p_rest rs' = p_rest rs"
    and "queue rs = b # rest" and "queue rs' = rest"
  shows "work_left h0 rs' + work_c h0 (consumers rs ! i) + (2 + vec_w h0 b)
           = work_left h0 rs + work_c h0 c'"
  unfolding work_left_def assms(2-6)
  using sum_list_map_update [OF assms(1), of "work_c h0" c'] by simp


lemma ctl_left_exit:
  assumes "i < length (consumers rs)" and "consumers rs' = (consumers rs)[i := c']"
    and "queue rs = []" and "queue rs' = []"
  shows "ctl_left rs' + exit_dist (consumers rs ! i) = ctl_left rs + exit_dist c'"
  unfolding ctl_left_def assms(2-4)
  using sum_list_map_update [OF assms(1), of exit_dist c'] by simp

lemma work_c_fresh:
  "work_c h0 \<lparr>c_pc = InProcessBatch, c_batch = b, c_i = 0\<rparr> = 1 + vec_w h0 b"
  by (cases b) (simp_all add: work_c_def vec_w_def)

lemma progress_processing:
  assumes m: "mem_ok h0 bl0 rs" and i: "i < length (consumers rs)"
    and p: "c_pc (consumers rs ! i) = InProcessBatch"
  shows "java_left h0 (consumerTask_step i rs) < java_left h0 rs"
proof -
  let ?c = "consumers rs ! i"
  show ?thesis
  proof (cases "c_batch ?c")
    case Nil
    let ?c' = "?c\<lparr>c_pc := AtLoopTest\<rparr>"
    have st: "consumerTask_step i rs = rs\<lparr>consumers := (consumers rs)[i := ?c']\<rparr>"
      using p Nil by (simp add: consumerTask_step_def Let_def)
    have "work_left h0 (consumerTask_step i rs) + work_c h0 ?c = work_left h0 rs + work_c h0 ?c'"
      unfolding st by (rule work_left_consumer [OF i]) simp_all
    then have "work_left h0 (consumerTask_step i rs) < work_left h0 rs"
      using p Nil by (simp add: work_c_def)
    then show ?thesis by (rule closer_work [rotated]) (simp add: st)
  next
    case (Cons a rest)
    note d = mem_okD(4) [OF m i Cons]
    have le: "c_i ?c \<le> length (h0 a)" using d by simp
    have "j_heap rs a = map (\<lambda>e. 2 * e) (take (c_i ?c) (h0 a)) @ drop (c_i ?c) (h0 a)"
      using d by simp
    then have len: "length (j_heap rs a) = length (h0 a)" using le by simp
    show ?thesis
    proof (cases "c_i ?c < length (j_heap rs a)")
      case True
      let ?c' = "?c\<lparr>c_i := c_i ?c + 1\<rparr>"
      have st: "consumerTask_step i rs
          = rs\<lparr>j_heap := (j_heap rs)(a := (j_heap rs a)[c_i ?c := j_heap rs a ! c_i ?c * 2]),
               consumers := (consumers rs)[i := ?c']\<rparr>"
        using p Cons True by (simp add: consumerTask_step_def Let_def)
      have "work_left h0 (consumerTask_step i rs) + work_c h0 ?c = work_left h0 rs + work_c h0 ?c'"
        unfolding st by (rule work_left_consumer [OF i]) simp_all
      then have "work_left h0 (consumerTask_step i rs) < work_left h0 rs"
        using p Cons True len by (simp add: work_c_def)
      then show ?thesis by (rule closer_work [rotated]) (simp add: st)
    next
      case False
      let ?c' = "?c\<lparr>c_batch := rest, c_i := 0\<rparr>"
      have st: "consumerTask_step i rs = rs\<lparr>consumers := (consumers rs)[i := ?c']\<rparr>"
        using p Cons False by (simp add: consumerTask_step_def Let_def)
      have eq: "c_i ?c = length (h0 a)" using False le len by simp
      have w': "work_c h0 ?c' = 1 + vec_w h0 rest"
        using p by (cases rest) (simp_all add: work_c_def vec_w_def)
      have w: "work_c h0 ?c = 2 + vec_w h0 rest"
        using p Cons eq by (simp add: work_c_def)
      have "work_left h0 (consumerTask_step i rs) + work_c h0 ?c = work_left h0 rs + work_c h0 ?c'"
        unfolding st by (rule work_left_consumer [OF i]) simp_all
      then have "work_left h0 (consumerTask_step i rs) < work_left h0 rs"
        unfolding w w' by simp
      then show ?thesis by (rule closer_work [rotated]) (simp add: st)
    qed
  qed
qed

lemma progress_queue:
  assumes c: "ctl_ok bl0 n rs" and n: "0 < n" and q: "queue rs \<noteq> []"
    and np: "c_pc (consumers rs ! 0) \<noteq> InProcessBatch"
  shows "java_left h0 (consumerTask_step 0 rs) < java_left h0 rs"
proof -
  let ?c = "consumers rs ! 0"
  have i: "0 < length (consumers rs)" using c n by (simp add: ctl_ok_def)
  have "c_pc ?c = ConsumerDone \<longrightarrow> queue rs = []" using c i unfolding ctl_ok_def by blast
  then have nd: "c_pc ?c \<noteq> ConsumerDone" using q by blast
  have pc_only: "java_left h0 (rs\<lparr>consumers := (consumers rs)[0 := ?c\<lparr>c_pc := pc\<rparr>]\<rparr>) < java_left h0 rs"
    if "pc \<noteq> InProcessBatch" "poll_dist (?c\<lparr>c_pc := pc\<rparr>) < poll_dist ?c" for pc
  proof (rule closer_ctl)
    let ?rs' = "rs\<lparr>consumers := (consumers rs)[0 := ?c\<lparr>c_pc := pc\<rparr>]\<rparr>"
    show "length (consumers ?rs') = length (consumers rs)" by simp
    have "work_left h0 ?rs' + work_c h0 ?c = work_left h0 rs + work_c h0 (?c\<lparr>c_pc := pc\<rparr>)"
      by (rule work_left_consumer [OF i]) simp_all
    then show "work_left h0 ?rs' = work_left h0 rs" using np that(1) by (simp add: work_c_def)
    show "ctl_left ?rs' < ctl_left rs" using q i that(2) by (simp add: ctl_left_def)
  qed
  show ?thesis
  proof (cases "c_pc ?c")
    case AtLoopTest
    show ?thesis
    proof (cases "isDoneProducing rs")
      case True
      then have st: "consumerTask_step 0 rs
          = rs\<lparr>consumers := (consumers rs)[0 := ?c\<lparr>c_pc := AtQueueTest\<rparr>]\<rparr>"
        using AtLoopTest by (simp add: consumerTask_step_def Let_def)
      show ?thesis unfolding st using AtLoopTest by (intro pc_only) (simp_all add: poll_dist_def)
    next
      case False
      then have st: "consumerTask_step 0 rs
          = rs\<lparr>consumers := (consumers rs)[0 := ?c\<lparr>c_pc := AtPoll\<rparr>]\<rparr>"
        using AtLoopTest by (simp add: consumerTask_step_def Let_def)
      show ?thesis unfolding st using AtLoopTest by (intro pc_only) (simp_all add: poll_dist_def)
    qed
  next
    case AtQueueTest
    then have st: "consumerTask_step 0 rs
        = rs\<lparr>consumers := (consumers rs)[0 := ?c\<lparr>c_pc := AtPoll\<rparr>]\<rparr>"
      using q by (simp add: consumerTask_step_def Let_def)
    show ?thesis unfolding st using AtQueueTest by (intro pc_only) (simp_all add: poll_dist_def)
  next
    case AtPoll
    obtain b rest where qq: "queue rs = b # rest" using q by (cases "queue rs") simp_all
    let ?c' = "?c\<lparr>c_pc := InProcessBatch, c_batch := b, c_i := 0\<rparr>"
    have st: "consumerTask_step 0 rs
        = rs\<lparr>queue := rest, consumers := (consumers rs)[0 := ?c']\<rparr>"
      using AtPoll qq by (simp add: consumerTask_step_def Let_def)
    have w': "work_c h0 ?c' = 1 + vec_w h0 b"
      by (cases b) (simp_all add: work_c_def vec_w_def)
    have "work_left h0 (consumerTask_step 0 rs) + work_c h0 ?c + (2 + vec_w h0 b)
        = work_left h0 rs + work_c h0 ?c'"
      unfolding st by (rule work_left_take [OF i _ _ _ qq]) simp_all
    then have "work_left h0 (consumerTask_step 0 rs) < work_left h0 rs"
      unfolding w' using AtPoll by (simp add: work_c_def)
    then show ?thesis by (rule closer_work [rotated]) (simp add: st)
  next
    case InProcessBatch
    then show ?thesis using np by simp
  next
    case ConsumerDone
    then show ?thesis using nd by simp
  qed
qed

lemma progress_producer:
  assumes q: "queue rs = []" and cap: "0 < capacity" and nd: "p_pc rs \<noteq> ProducerDone"
  shows "java_left h0 (produceBatches_step capacity rs) < java_left h0 rs"
proof (rule closer_work)
  show "length (consumers (produceBatches_step capacity rs)) = length (consumers rs)"
    by (simp add: produceBatches_step_def split: producer_pc.splits list.splits)
  show "work_left h0 (produceBatches_step capacity rs) < work_left h0 rs"
    using q cap nd
    by (cases "p_pc rs"; cases "p_rest rs") (simp_all add: produceBatches_step_def work_left_def)
qed

lemma progress_exit:
  assumes c: "ctl_ok bl0 n rs" and q: "queue rs = []" and f: "isDoneProducing rs"
    and i: "i < length (consumers rs)"
    and np: "c_pc (consumers rs ! i) \<noteq> InProcessBatch"
    and nd: "c_pc (consumers rs ! i) \<noteq> ConsumerDone"
  shows "java_left h0 (if c_pc (consumers rs ! i) = AtPoll then poll_times_out i rs
                      else consumerTask_step i rs) < java_left h0 rs"
proof -
  let ?c = "consumers rs ! i"
  have pc_only: "java_left h0 (rs\<lparr>consumers := (consumers rs)[i := ?c\<lparr>c_pc := pc\<rparr>]\<rparr>) < java_left h0 rs"
    if "pc \<noteq> InProcessBatch" "exit_dist (?c\<lparr>c_pc := pc\<rparr>) < exit_dist ?c" for pc
  proof (rule closer_ctl)
    let ?rs' = "rs\<lparr>consumers := (consumers rs)[i := ?c\<lparr>c_pc := pc\<rparr>]\<rparr>"
    show "length (consumers ?rs') = length (consumers rs)" by simp
    have "work_left h0 ?rs' + work_c h0 ?c = work_left h0 rs + work_c h0 (?c\<lparr>c_pc := pc\<rparr>)"
      by (rule work_left_consumer [OF i]) simp_all
    then show "work_left h0 ?rs' = work_left h0 rs" using np that(1) by (simp add: work_c_def)
    have "ctl_left ?rs' + exit_dist ?c = ctl_left rs + exit_dist (?c\<lparr>c_pc := pc\<rparr>)"
      by (rule ctl_left_exit [OF i]) (simp_all add: q)
    then show "ctl_left ?rs' < ctl_left rs" using that(2) by simp
  qed
  show ?thesis
  proof (cases "c_pc ?c")
    case AtLoopTest
    then have st: "consumerTask_step i rs
        = rs\<lparr>consumers := (consumers rs)[i := ?c\<lparr>c_pc := AtQueueTest\<rparr>]\<rparr>"
      using f by (simp add: consumerTask_step_def Let_def)
    show ?thesis using AtLoopTest unfolding st
      by (simp add: pc_only exit_dist_def)
  next
    case AtQueueTest
    then have st: "consumerTask_step i rs
        = rs\<lparr>consumers := (consumers rs)[i := ?c\<lparr>c_pc := ConsumerDone\<rparr>]\<rparr>"
      using q by (simp add: consumerTask_step_def Let_def)
    show ?thesis using AtQueueTest unfolding st
      by (simp add: pc_only exit_dist_def)
  next
    case AtPoll
    then have st: "poll_times_out i rs
        = rs\<lparr>consumers := (consumers rs)[i := ?c\<lparr>c_pc := AtLoopTest\<rparr>]\<rparr>"
      using q by (simp add: poll_times_out_def Let_def)
    show ?thesis using AtPoll unfolding st
      by (simp add: pc_only exit_dist_def)
  next
    case InProcessBatch
    then show ?thesis using np by simp
  next
    case ConsumerDone
    then show ?thesis using nd by simp
  qed
qed


lemma thread_steps_frame:
  "p_caught (produceBatches_step capacity rs) = p_caught rs"
  "awaited (produceBatches_step capacity rs) = awaited rs"
  "p_caught (consumerTask_step i rs) = p_caught rs"
  "awaited (consumerTask_step i rs) = awaited rs"
  "p_caught (poll_times_out i rs) = p_caught rs"
  "awaited (poll_times_out i rs) = awaited rs"
  by (simp_all add: produceBatches_step_def consumerTask_step_def poll_times_out_def Let_def
      split: producer_pc.splits consumer_pc.splits list.splits)

lemma java_progress:
  assumes inv: "java_inv h0 bl0 n rs" and n: "0 < n" and cap: "0 < capacity"
    and nt: "\<not> pool_terminated rs"
  shows "\<exists>e. java_left h0 (java_step capacity e rs) < java_left h0 rs \<and>
             p_caught (java_step capacity e rs) = p_caught rs \<and>
             awaited (java_step capacity e rs) = awaited rs"
proof -
  have c: "ctl_ok bl0 n rs" and m: "mem_ok h0 bl0 rs" using inv by (simp_all add: java_inv_def)
  have len: "length (consumers rs) = n" using c unfolding ctl_ok_def by blast
  show ?thesis
  proof (cases "\<exists>i < n. c_pc (consumers rs ! i) = InProcessBatch")
    case True
    then obtain i where i: "i < length (consumers rs)" and p: "c_pc (consumers rs ! i) = InProcessBatch"
      using len by auto
    have "java_left h0 (java_step capacity (Consumer i) rs) < java_left h0 rs"
      using progress_processing [OF m i p] i by (simp add: java_step_def)
    moreover have "p_caught (java_step capacity (Consumer i) rs) = p_caught rs"
      "awaited (java_step capacity (Consumer i) rs) = awaited rs"
      by (simp_all add: java_step_def thread_steps_frame)
    ultimately show ?thesis by blast
  next
    case False
    then have np: "c_pc (consumers rs ! i) \<noteq> InProcessBatch" if "i < n" for i using that by blast
    show ?thesis
    proof (cases "queue rs = []")
      case False
      have "java_left h0 (java_step capacity (Consumer 0) rs) < java_left h0 rs"
        using progress_queue [OF c n False np [OF n]] n len by (simp add: java_step_def)
      moreover have "p_caught (java_step capacity (Consumer 0) rs) = p_caught rs"
        "awaited (java_step capacity (Consumer 0) rs) = awaited rs"
        by (simp_all add: java_step_def thread_steps_frame)
      ultimately show ?thesis by blast
    next
      case q: True
      show ?thesis
      proof (cases "p_pc rs = ProducerDone")
        case False
        have "java_left h0 (java_step capacity Producer rs) < java_left h0 rs"
          using progress_producer [OF q cap False] by (simp add: java_step_def)
        moreover have "p_caught (java_step capacity Producer rs) = p_caught rs"
          "awaited (java_step capacity Producer rs) = awaited rs"
          by (simp_all add: java_step_def thread_steps_frame)
        ultimately show ?thesis by blast
      next
        case True
        then have f: "isDoneProducing rs" using c unfolding ctl_ok_def by blast
        obtain i where i: "i < length (consumers rs)" and nd: "c_pc (consumers rs ! i) \<noteq> ConsumerDone"
          using nt by (auto simp add: pool_terminated_def list_all_length)
        have npi: "c_pc (consumers rs ! i) \<noteq> InProcessBatch" using np i len by simp
        note pr = progress_exit [OF c q f i npi nd]
        show ?thesis
        proof (cases "c_pc (consumers rs ! i) = AtPoll")
          case True
          have "java_left h0 (java_step capacity (PollTimeout i) rs) < java_left h0 rs"
            using pr True i by (simp add: java_step_def)
          moreover have "p_caught (java_step capacity (PollTimeout i) rs) = p_caught rs"
            "awaited (java_step capacity (PollTimeout i) rs) = awaited rs"
            by (simp_all add: java_step_def thread_steps_frame)
          ultimately show ?thesis by blast
        next
          case False
          have "java_left h0 (java_step capacity (Consumer i) rs) < java_left h0 rs"
            using pr False i by (simp add: java_step_def)
          moreover have "p_caught (java_step capacity (Consumer i) rs) = p_caught rs"
            "awaited (java_step capacity (Consumer i) rs) = awaited rs"
            by (simp_all add: java_step_def thread_steps_frame)
          ultimately show ?thesis by blast
        qed
      qed
    qed
  qed
qed

lemma java_completes:
  assumes "java_inv h0 bl0 n rs" and "0 < n" and "0 < capacity"
  shows "\<exists>sched. pool_terminated (fold (java_step capacity) sched rs) \<and>
           p_caught (fold (java_step capacity) sched rs) = p_caught rs \<and>
           awaited (fold (java_step capacity) sched rs) = awaited rs"
  using assms(1)
proof (induction "java_left h0 rs" arbitrary: rs rule: less_induct)
  case less
  show ?case
  proof (cases "pool_terminated rs")
    case True
    then have "pool_terminated (fold (java_step capacity) [] rs) \<and>
        p_caught (fold (java_step capacity) [] rs) = p_caught rs \<and>
        awaited (fold (java_step capacity) [] rs) = awaited rs" by simp
    then show ?thesis ..
  next
    case False
    from java_progress [OF less.prems assms(2,3) False] obtain e
      where e: "java_left h0 (java_step capacity e rs) < java_left h0 rs"
        and pc: "p_caught (java_step capacity e rs) = p_caught rs"
        and aw: "awaited (java_step capacity e rs) = awaited rs" by blast
    have "java_inv h0 bl0 n (java_step capacity e rs)" using less.prems by (rule java_inv_step)
    from less.hyps [OF e this] obtain sched
      where "pool_terminated (fold (java_step capacity) sched (java_step capacity e rs))"
        and "p_caught (fold (java_step capacity) sched (java_step capacity e rs))
              = p_caught (java_step capacity e rs)"
        and "awaited (fold (java_step capacity) sched (java_step capacity e rs))
              = awaited (java_step capacity e rs)" by blast
    then have "pool_terminated (fold (java_step capacity) (e # sched) rs) \<and>
        p_caught (fold (java_step capacity) (e # sched) rs) = p_caught rs \<and>
        awaited (fold (java_step capacity) (e # sched) rs) = awaited rs"
      using pc aw by simp
    then show ?thesis ..
  qed
qed

text \<open>
  Every schedule after which \<^verbatim>\<open>awaitTermination\<close> has not ended can be continued, with
  no further interruption of the producer, so that the pool terminates and
  \<^verbatim>\<open>awaitTermination\<close> returns \<^verbatim>\<open>true\<close>.
\<close>

lemma processBatches_can_terminate:
  assumes d: "distinct (concat allBatches)" and n: "0 < n" and cap: "0 < capacity"
    and a: "awaited (java_exec capacity n sched h allBatches) = None"
  shows "\<exists>rest. awaited (java_exec capacity n (sched @ rest) h allBatches) = Some Terminated \<and>
           p_caught (java_exec capacity n (sched @ rest) h allBatches)
             = p_caught (java_exec capacity n sched h allBatches)"
proof -
  let ?rs = "java_exec capacity n sched h allBatches"
  have inv: "java_inv h allBatches n ?rs"
    unfolding java_exec_def by (intro java_inv_fold java_inv_start d)
  from java_completes [OF inv n cap] obtain rest
    where t: "pool_terminated (fold (java_step capacity) rest ?rs)"
      and pc: "p_caught (fold (java_step capacity) rest ?rs) = p_caught ?rs"
      and aw: "awaited (fold (java_step capacity) rest ?rs) = awaited ?rs" by blast
  let ?rs' = "fold (java_step capacity) rest ?rs"
  have e: "java_exec capacity n (sched @ rest @ [Await Terminated]) h allBatches
      = java_step capacity (Await Terminated) ?rs'"
    by (simp add: java_exec_def)
  have "awaited (java_step capacity (Await Terminated) ?rs') = Some Terminated"
    using t aw a by (simp add: java_step_def awaitTermination_step_def)
  moreover have "p_caught (java_step capacity (Await Terminated) ?rs') = p_caught ?rs"
    using pc by (simp add: java_step_def awaitTermination_step_def)
  ultimately have "awaited (java_exec capacity n (sched @ rest @ [Await Terminated]) h allBatches)
        = Some Terminated \<and>
      p_caught (java_exec capacity n (sched @ rest @ [Await Terminated]) h allBatches)
        = p_caught ?rs"
    unfolding e by simp
  then show ?thesis ..
qed

subsection \<open>Concrete runs\<close>

lemmas java_eval = java_exec_def java_step_def java_start_def produceBatches_step_def put_interrupted_def
  consumerTask_step_def poll_times_out_def awaitTermination_step_def pool_terminated_def Let_def

lemma replicate_2: "replicate 2 x = [x, x]"
  by (simp add: numeral_2_eq_2)

lemma demo_java_run:
  "java_exec 1 2 demo_jsched (\<lambda>a. [1]) [[20], [21]]
     = \<lparr>j_heap = (\<lambda>a. [1])(20 := [2], 21 := [2]), p_pc = ProducerDone, p_rest = [],
        p_caught = False, queue = [], isDoneProducing = True,
        consumers = [\<lparr>c_pc = ConsumerDone, c_batch = [], c_i = 0\<rparr>,
                     \<lparr>c_pc = ConsumerDone, c_batch = [], c_i = 0\<rparr>],
        awaited = Some Terminated, printed = []\<rparr>"
  by (simp add: java_eval demo_jsched_def replicate_2)

lemma timeout_run:
  "java_exec 10 1 [Producer, Consumer 0, Consumer 0, Consumer 0, Await TimedOut] (\<lambda>a. [1, 1]) [[0]]
     = \<lparr>j_heap = (\<lambda>a. [1, 1])(0 := [2, 1]), p_pc = Putting, p_rest = [],
        p_caught = False, queue = [], isDoneProducing = False,
        consumers = [\<lparr>c_pc = InProcessBatch, c_batch = [0], c_i = 1\<rparr>],
        awaited = Some TimedOut, printed = []\<rparr>"
  by (simp add: java_eval)

lemma stalled_run:
  "java_exec 10 1 [Producer, Consumer 0, Consumer 0] (\<lambda>a. [1]) [[0]]
     = \<lparr>j_heap = (\<lambda>a. [1]), p_pc = Putting, p_rest = [],
        p_caught = False, queue = [], isDoneProducing = False,
        consumers = [\<lparr>c_pc = InProcessBatch, c_batch = [0], c_i = 0\<rparr>],
        awaited = None, printed = []\<rparr>"
  by (simp add: java_eval)

lemma interrupted_run:
  "java_exec 10 1 [InterruptProducer, Producer] (\<lambda>a. [1]) [[0], [1]]
     = \<lparr>j_heap = (\<lambda>a. [1]), p_pc = ProducerDone, p_rest = [[0], [1]],
        p_caught = True, queue = [], isDoneProducing = True,
        consumers = [\<lparr>c_pc = AtLoopTest, c_batch = [], c_i = 0\<rparr>],
        awaited = None, printed = [ProducerStackTrace]\<rparr>"
  by (simp add: java_eval)


subsection \<open>Exactly once\<close>

lemma sum_doubled:
  assumes "\<And>a. a \<in> set xs \<Longrightarrow> h' a = map (\<lambda>e. 2 * e) (h a)"
  shows "(\<Sum>a\<leftarrow>xs. sum_list (h' a)) = 2 * (\<Sum>a\<leftarrow>xs. sum_list (h a :: real list))"
proof -
  have "map (\<lambda>a. sum_list (h' a)) xs = map (\<lambda>a. 2 * sum_list (h a)) xs"
    using assms by (simp add: sum_list_const_mult)
  then have "(\<Sum>a\<leftarrow>xs. sum_list (h' a)) = (\<Sum>a\<leftarrow>xs. 2 * sum_list (h a))"
    by (rule arg_cong)
  also have "\<dots> = 2 * (\<Sum>a\<leftarrow>xs. sum_list (h a))"
    by (rule sum_list_const_mult)
  finally show ?thesis .
qed

lemma go_run_transforms_once:
  assumes d: "distinct images"
    and r: "RunProcessingTask bs clock sched h images labels = Returns (et, oh, h', images')"
  shows "images' = images \<and>
     (\<forall>a \<in> set (take ((length images div bs) * bs) images). h' a = SimulateImageProcessing (h a)) \<and>
     (\<forall>a. a \<notin> set (take ((length images div bs) * bs) images) \<longrightarrow> h' a = h a) \<and>
     (\<Sum>a\<leftarrow>take ((length images div bs) * bs) images. sum_list (h' a))
        = 2 * (\<Sum>a\<leftarrow>take ((length images div bs) * bs) images. sum_list (h a))"
proof -
  let ?m = "(length images div bs) * bs"
  note e = RunProcessingTask_effect [OF d r]
  have ml: "?m \<le> length images" by simp
  have inb: "h' a = map (\<lambda>e. 2 * e) (h a)" if "a \<in> set (take ?m images)" for a
  proof -
    from that obtain p where "p < length (take ?m images)" "a = take ?m images ! p"
      by (auto simp add: in_set_conv_nth)
    then have "p < ?m" "a = images ! p" by simp_all
    then show ?thesis using e(3) by simp
  qed
  have out: "h' a = h a" if "a \<notin> set (take ?m images)" for a
  proof (cases "a \<in> set images")
    case True
    then obtain p where p: "p < length images" "a = images ! p"
      by (auto simp add: in_set_conv_nth)
    have "\<not> p < ?m"
    proof
      assume "p < ?m"
      then have "take ?m images ! p = images ! p" "p < length (take ?m images)" using p by simp_all
      then have "a \<in> set (take ?m images)" using p by (metis nth_mem)
      with that show False by simp
    qed
    then show ?thesis using e(4) [of p] p by simp
  next
    case False
    then show ?thesis by (rule e(5))
  qed
  show ?thesis
    using e(2) inb out sum_doubled [of "take ?m images" h' h]
    by (simp add: SimulateImageProcessing_map)
qed

lemma java_run_transforms_once:
  assumes d: "distinct (concat allBatches)" and n: "0 < n"
    and t: "awaited (java_exec capacity n sched h allBatches) = Some Terminated"
    and nc: "\<not> p_caught (java_exec capacity n sched h allBatches)"
  shows "(\<forall>b \<in> set allBatches.
            map (j_heap (java_exec capacity n sched h allBatches)) b = processBatch (map h b)) \<and>
     (\<forall>a. a \<notin> set (concat allBatches) \<longrightarrow> j_heap (java_exec capacity n sched h allBatches) a = h a) \<and>
     (\<Sum>a\<leftarrow>concat allBatches. sum_list (j_heap (java_exec capacity n sched h allBatches) a))
        = 2 * (\<Sum>a\<leftarrow>concat allBatches. sum_list (h a))"
proof -
  let ?rs = "java_exec capacity n sched h allBatches"
  have inv: "java_inv h allBatches n ?rs"
    unfolding java_exec_def by (intro java_inv_fold java_inv_start d)
  note f = java_inv_terminated [OF inv n t nc]
  have each: "j_heap ?rs a = map (\<lambda>e. 2 * e) (h a)" if "a \<in> set (concat allBatches)" for a
    using f that by blast
  have "map (j_heap ?rs) b = processBatch (map h b)" if "b \<in> set allBatches" for b
  proof -
    have "\<And>a. a \<in> set b \<Longrightarrow> a \<in> set (concat allBatches)" using that by auto
    then show ?thesis using each by (simp add: processBatch_map comp_def)
  qed
  then show ?thesis using f sum_doubled [of "concat allBatches" "j_heap ?rs" h] each by blast
qed

text \<open>
  Claim C1, as the code has it. Go: whenever \<^verbatim>\<open>RunProcessingTask\<close> returns on a dataset
  of distinct vectors, under any schedule of its goroutines, every vector of every batch
  has been doubled exactly once, every other vector is untouched, and the elements of
  the batched vectors sum to twice their sum before the run. Java: the same holds for
  the vectors of all batches when \<^verbatim>\<open>processBatches\<close> returns after
  \<^verbatim>\<open>awaitTermination\<close> has reported a terminated pool and the producer's
  \<^verbatim>\<open>put\<close> has never thrown.
\<close>

theorem every_vector_transformed_once:
  "(distinct images \<and>
    RunProcessingTask bs clock sched h images labels = Returns (et, oh, h', images') \<longrightarrow>
      images' = images \<and>
      (\<forall>a \<in> set (take ((length images div bs) * bs) images). h' a = SimulateImageProcessing (h a)) \<and>
      (\<forall>a. a \<notin> set (take ((length images div bs) * bs) images) \<longrightarrow> h' a = h a) \<and>
      (\<Sum>a\<leftarrow>take ((length images div bs) * bs) images. sum_list (h' a))
         = 2 * (\<Sum>a\<leftarrow>take ((length images div bs) * bs) images. sum_list (h a))) \<and>
   (distinct (concat allBatches) \<and> 0 < n \<and>
    awaited (java_exec capacity n jsched jh allBatches) = Some Terminated \<and>
    \<not> p_caught (java_exec capacity n jsched jh allBatches) \<longrightarrow>
      (\<forall>b \<in> set allBatches.
          map (j_heap (java_exec capacity n jsched jh allBatches)) b = processBatch (map jh b)) \<and>
      (\<forall>a. a \<notin> set (concat allBatches) \<longrightarrow>
          j_heap (java_exec capacity n jsched jh allBatches) a = jh a) \<and>
      (\<Sum>a\<leftarrow>concat allBatches. sum_list (j_heap (java_exec capacity n jsched jh allBatches) a))
         = 2 * (\<Sum>a\<leftarrow>concat allBatches. sum_list (jh a)))"
  using go_run_transforms_once [of images bs clock sched h labels et oh h' images']
    java_run_transforms_once [of allBatches n capacity jsched jh]
  by blast

text \<open>
  The witness: the Go run of five one-element vectors in batches of two under
  \<^const>\<open>demo_sched\<close>, and the Java run of two one-image batches under
  \<^const>\<open>demo_jsched\<close>.
\<close>

theorem every_vector_transformed_once_witness:
  "distinct [10, 11, 12, 13, 14::nat] \<and>
   RunProcessingTask 2 (\<lambda>n. 1000 * int n) demo_sched (\<lambda>a. [1]) [10, 11, 12, 13, 14] [0, 1, 2, 3, 4::int]
     = Returns (1000, 3000, (\<lambda>a. [1])(10 := [2], 11 := [2], 12 := [2], 13 := [2]), [10, 11, 12, 13, 14]) \<and>
   ((\<lambda>a. [1])(10 := [2], 11 := [2], 12 := [2], 13 := [2])) (13::nat) = SimulateImageProcessing [1] \<and>
   ((\<lambda>a. [1::real])(10 := [2], 11 := [2], 12 := [2], 13 := [2])) (14::nat) = [1] \<and>
   distinct (concat [[20], [21::nat]]) \<and>
   awaited (java_exec 1 2 demo_jsched (\<lambda>a. [1]) [[20], [21]]) = Some Terminated \<and>
   \<not> p_caught (java_exec 1 2 demo_jsched (\<lambda>a. [1]) [[20], [21]]) \<and>
   map (j_heap (java_exec 1 2 demo_jsched (\<lambda>a. [1]) [[20], [21]])) [21] = processBatch [[1]]"
proof -
  have d: "distinct [10, 11, 12, 13, 14::nat]" by simp
  have dj: "distinct (concat [[20], [21::nat]])" by simp
  have t: "awaited (java_exec 1 2 demo_jsched (\<lambda>a. [1]) [[20], [21]]) = Some Terminated"
    and nc: "\<not> p_caught (java_exec 1 2 demo_jsched (\<lambda>a. [1]) [[20], [21]])"
    unfolding demo_java_run by simp_all
  note w = every_vector_transformed_once
    [where images = "[10, 11, 12, 13, 14]" and bs = 2 and clock = "\<lambda>n. 1000 * int n"
      and sched = demo_sched and h = "\<lambda>a. [1]" and labels = "[0, 1, 2, 3, 4::int]" and et = 1000
      and oh = 3000 and h' = "(\<lambda>a. [1])(10 := [2], 11 := [2], 12 := [2], 13 := [2])"
      and images' = "[10, 11, 12, 13, 14]" and allBatches = "[[20], [21]]" and n = 2
      and capacity = 1 and jsched = demo_jsched and jh = "\<lambda>a. [1]"]
  note go = w [THEN conjunct1, rule_format, OF conjI [OF d demo_run]]
  have n2: "0 < (2::nat)" by simp
  note java = w [THEN conjunct2, rule_format, OF conjI [OF dj conjI [OF n2 conjI [OF t nc]]]]
  have "((\<lambda>a. [1])(10 := [2], 11 := [2], 12 := [2], 13 := [2])) (13::nat) = SimulateImageProcessing [1]"
    using go [THEN conjunct2, THEN conjunct1, rule_format, of 13] by simp
  moreover have "((\<lambda>a. [1::real])(10 := [2], 11 := [2], 12 := [2], 13 := [2])) (14::nat) = [1]"
    using go [THEN conjunct2, THEN conjunct2, THEN conjunct1, rule_format, of 14] by simp
  moreover have "map (j_heap (java_exec 1 2 demo_jsched (\<lambda>a. [1]) [[20], [21]])) [21] = processBatch [[1]]"
    using java [THEN conjunct1, rule_format, of "[21]"] by simp
  ultimately show ?thesis using d dj t nc demo_run by simp
qed

text \<open>
  Claim C1 as the specification states it, for the Java harness: after
  \<^verbatim>\<open>processBatches\<close> returns, the one vector \<open>[1, 1]\<close> of the one batch would be
  \<open>[2, 2]\<close>. When the ten minutes of \<^verbatim>\<open>awaitTermination\<close> elapse while the consumer has
  doubled the first element only, \<^verbatim>\<open>processBatches\<close> returns all the same: the vector
  is \<open>[2, 1]\<close>, the batch is left partially processed and the sum is 3, not 4.
\<close>

theorem timed_out_run_counterexample:
  "awaited (java_exec 10 1 [Producer, Consumer 0, Consumer 0, Consumer 0, Await TimedOut]
      (\<lambda>a. [1, 1]) [[0]]) = Some TimedOut \<and>
   processBatches_completion TimedOut = ReturnsNormally \<and>
   j_heap (java_exec 10 1 [Producer, Consumer 0, Consumer 0, Consumer 0, Await TimedOut]
      (\<lambda>a. [1, 1]) [[0]]) 0 = [2, 1] \<and>
   processBatch [[1, 1]] = [[2, 2]] \<and>
   sum_list (j_heap (java_exec 10 1 [Producer, Consumer 0, Consumer 0, Consumer 0, Await TimedOut]
      (\<lambda>a. [1, 1]) [[0]]) 0) \<noteq> 2 * sum_list [1, 1]"
  unfolding timeout_run
  by (simp add: processBatches_completion_def processBatches_end_def try_awaitTermination_def
      awaitTermination_def processBatch_map)


subsection \<open>The bounded wait for the pool\<close>

lemma awaited_stays:
  "awaited rs = Some r \<Longrightarrow> awaited (java_step capacity e rs) = Some r"
  by (cases e)
    (auto simp add: java_step_def produceBatches_step_def put_interrupted_def
      consumerTask_step_def poll_times_out_def awaitTermination_step_def Let_def
      split: producer_pc.splits consumer_pc.splits list.splits)

lemma awaited_stays_fold:
  "awaited rs = Some r \<Longrightarrow> awaited (fold (java_step capacity) sched rs) = Some r"
  by (induction sched arbitrary: rs) (simp_all add: awaited_stays)

text \<open>
  A wait that times out on a pool that has not drained changes nothing but the record
  of how the wait ended, whatever the state, and nothing that happens later changes that
  record.
\<close>

lemma awaitTermination_timeout:
  assumes "awaited rs = None" and "\<not> pool_terminated rs"
  shows "java_step capacity (Await TimedOut) rs = rs\<lparr>awaited := Some TimedOut\<rparr>"
    and "awaited (fold (java_step capacity) sched (java_step capacity (Await TimedOut) rs))
           = Some TimedOut"
proof -
  show st: "java_step capacity (Await TimedOut) rs = rs\<lparr>awaited := Some TimedOut\<rparr>"
    using assms by (simp add: java_step_def awaitTermination_step_def)
  show "awaited (fold (java_step capacity) sched (java_step capacity (Await TimedOut) rs))
          = Some TimedOut"
    by (rule awaited_stays_fold) (simp add: st)
qed

lemma try_awaitTermination_returns: "snd (try_awaitTermination handler r) = ReturnsNormally"
  by (cases r) (simp_all add: try_awaitTermination_def awaitTermination_def)

text \<open>
  Claim C5 at a run whose pool does not drain in time: one batch, one consumer, and the
  ten minutes of \<^verbatim>\<open>awaitTermination\<close> elapse while the consumer is in
  \<^verbatim>\<open>processBatch\<close>. The call returns \<^verbatim>\<open>false\<close>, which no harness reads: the method
  returns normally and nothing is printed or logged, while the pool is still running.
  The message "Consumer threads failed to terminate in time." of the Tiny ImageNet
  harness is written by the handler of \<^verbatim>\<open>InterruptedException\<close>, which a timeout does
  not reach.
\<close>

theorem termination_timeout_is_swallowed:
  "awaited (java_exec 10 1 [Producer, Consumer 0, Consumer 0, Await TimedOut] (\<lambda>a. [1]) [[0]])
     = Some TimedOut \<and>
   \<not> pool_terminated (java_exec 10 1 [Producer, Consumer 0, Consumer 0, Await TimedOut] (\<lambda>a. [1]) [[0]]) \<and>
   consumers (java_exec 10 1 [Producer, Consumer 0, Consumer 0, Await TimedOut] (\<lambda>a. [1]) [[0]])
     = [\<lparr>c_pc = InProcessBatch, c_batch = [0], c_i = 0\<rparr>] \<and>
   printed (java_exec 10 1 [Producer, Consumer 0, Consumer 0, Await TimedOut] (\<lambda>a. [1]) [[0]]) = [] \<and>
   awaitTermination TimedOut = Inr False \<and>
   processBatches_end TimedOut = ([], ReturnsNormally) \<and>
   processImages_end TimedOut = ([], ReturnsNormally) \<and>
   processImages_end Interrupted = ([FailedToTerminateInTime], ReturnsNormally)"
  by (simp add: java_eval processBatches_end_def processImages_end_def try_awaitTermination_def
      awaitTermination_def)


subsection \<open>The flag of the producer\<close>

lemma not_interrupted:
  "p_caught (fold (java_step capacity) sched rs) \<Longrightarrow> InterruptProducer \<notin> set sched \<Longrightarrow> p_caught rs"
proof (induction sched arbitrary: rs)
  case Nil
  then show ?case by simp
next
  case (Cons e sched)
  then have "p_caught (java_step capacity e rs)" by simp
  moreover have "e \<noteq> InterruptProducer" using Cons.prems by auto
  ultimately show ?case
    by (cases e)
      (simp_all add: java_step_def thread_steps_frame awaitTermination_step_def
        split: if_splits await_result.splits)
qed

lemma delivered_simps:
  "delivered [] = []"
  "delivered (WalkFails # rest) = []"
  "delivered (Path regular name r # rest) = readable (Path regular name r) @ delivered rest"
  by (simp_all add: delivered_def)

lemma images_ok_start: "images_ok directory (produceImages_start directory)"
  by (simp add: images_ok_def produceImages_start_def)

lemma images_ok_step:
  assumes "images_ok directory ps"
  shows "images_ok directory (produceImages_step ps)"
proof (cases "i_pc ps")
  case Putting
  show ?thesis
  proof (cases "i_walk ps")
    case Nil
    then show ?thesis using assms Putting
      by (simp add: images_ok_def produceImages_step_def delivered_simps)
  next
    case (Cons e rest)
    show ?thesis
    proof (cases e)
      case WalkFails
      then show ?thesis using assms Putting Cons
        by (simp add: images_ok_def produceImages_step_def delivered_simps)
    next
      case (Path regular name r)
      then show ?thesis using assms Putting Cons
        by (cases r; cases "regular \<and> endsWith name ''.jpg''")
          (auto simp add: images_ok_def produceImages_step_def delivered_simps)
    qed
  qed
next
  case InFinally
  then show ?thesis using assms by (simp add: images_ok_def produceImages_step_def)
next
  case ProducerDone
  then show ?thesis using assms by (simp add: images_ok_def produceImages_step_def)
qed

lemma images_ok_run: "images_ok directory (produceImages_run directory k)"
  by (induction k) (simp_all add: produceImages_run_def images_ok_start images_ok_step)

lemma produceImages_flag:
  "(i_flag (produceImages_run directory k) \<longrightarrow>
      i_pc (produceImages_run directory k) = ProducerDone \<and>
      i_enqueued (produceImages_run directory k) = delivered directory) \<and>
   (\<exists>rest. delivered directory = i_enqueued (produceImages_run directory k) @ rest)"
proof -
  note ok = images_ok_run [of directory k]
  show ?thesis
  proof (cases "i_pc (produceImages_run directory k) = Putting")
    case True
    then show ?thesis using ok unfolding images_ok_def by (metis producer_pc.distinct(3))
  next
    case False
    then show ?thesis using ok unfolding images_ok_def by simp
  qed
qed

lemma demo_walk:
  "produceImages_run [Path True ''a.jpg'' (Decoded 1), Path True ''b.jpg'' NoReader, WalkFails,
       Path True ''c.jpg'' (Decoded 3)] 4
     = \<lparr>i_pc = ProducerDone, i_walk = [Path True ''c.jpg'' (Decoded 3)], i_enqueued = [1],
        i_log = [ErrorProcessingImage, ErrorWalkingDirectory], i_flag = True\<rparr>"
  by (simp add: produceImages_run_def produceImages_start_def produceImages_step_def endsWith_def
      numeral_eq_Suc)

lemma demo_walk_full:
  "produceImages_run [Path False ''train'' ReadFails, Path True ''a.jpg'' (Decoded 1),
       Path True ''b.txt'' NoReader, Path True ''c.jpg'' (Decoded 3)] 6
     = \<lparr>i_pc = ProducerDone, i_walk = [], i_enqueued = [1, 3], i_log = [], i_flag = True\<rparr>"
  by (simp add: produceImages_run_def produceImages_start_def produceImages_step_def endsWith_def
      numeral_eq_Suc)

text \<open>
  Claim C8, as the code has it. Both producers set the flag in a \<^verbatim>\<open>finally\<close> block, so
  at every point of every run the flag is set only if the producer has left its loop
  and returned. CIFAR: the batches not enqueued yet are a suffix of the input, and when
  the flag is set and no \<^verbatim>\<open>put\<close> has thrown (as in every run in which nothing
  interrupts the producer) none is left to enqueue. Tiny ImageNet: the images enqueued
  are always the first of the images that the walk delivers, and when the flag is set
  they are all of them: every decoded \<^verbatim>\<open>.jpg\<close> file before the first failure of the
  walk. A file that cannot be decoded is logged and skipped, and a failure of the walk
  ends the loop.
\<close>

theorem isDoneProducing_only_after_loop:
  "(isDoneProducing (java_exec capacity n sched h allBatches) \<longrightarrow>
      p_pc (java_exec capacity n sched h allBatches) = ProducerDone) \<and>
   (isDoneProducing (java_exec capacity n sched h allBatches) \<and>
    \<not> p_caught (java_exec capacity n sched h allBatches) \<longrightarrow>
      p_rest (java_exec capacity n sched h allBatches) = []) \<and>
   (InterruptProducer \<notin> set sched \<longrightarrow> \<not> p_caught (java_exec capacity n sched h allBatches)) \<and>
   (\<exists>put. allBatches = put @ p_rest (java_exec capacity n sched h allBatches)) \<and>
   (i_flag (produceImages_run directory k) \<longrightarrow>
      i_pc (produceImages_run directory k) = ProducerDone \<and>
      i_enqueued (produceImages_run directory k) = delivered directory) \<and>
   (\<exists>rest. delivered directory = i_enqueued (produceImages_run directory k) @ rest)"
proof -
  have "ctl_ok allBatches n (java_exec capacity n sched h allBatches)"
    unfolding java_exec_def
  proof (induction sched arbitrary: h rule: rev_induct)
    case Nil
    then show ?case by (simp add: ctl_ok_start)
  next
    case (snoc e sched)
    then show ?case by (simp add: ctl_ok_step)
  qed
  then have a: "isDoneProducing (java_exec capacity n sched h allBatches)
        \<longleftrightarrow> p_pc (java_exec capacity n sched h allBatches) = ProducerDone"
    and b: "p_pc (java_exec capacity n sched h allBatches) \<noteq> Putting \<longrightarrow>
        p_caught (java_exec capacity n sched h allBatches) \<or>
        p_rest (java_exec capacity n sched h allBatches) = []"
    and c: "\<exists>pre. allBatches = pre @ p_rest (java_exec capacity n sched h allBatches)"
    unfolding ctl_ok_def by blast+
  have d: "\<not> p_caught (java_exec capacity n sched h allBatches)" if "InterruptProducer \<notin> set sched"
  proof
    assume "p_caught (java_exec capacity n sched h allBatches)"
    then have "p_caught (java_start h allBatches n)"
      unfolding java_exec_def using that by (rule not_interrupted)
    then show False by (simp add: java_start_def)
  qed
  note p = produceImages_flag [of directory k]
  show ?thesis
  proof (intro conjI)
    show "isDoneProducing (java_exec capacity n sched h allBatches) \<longrightarrow>
        p_pc (java_exec capacity n sched h allBatches) = ProducerDone"
      using a by simp
    show "isDoneProducing (java_exec capacity n sched h allBatches) \<and>
        \<not> p_caught (java_exec capacity n sched h allBatches) \<longrightarrow>
        p_rest (java_exec capacity n sched h allBatches) = []"
      using a b by auto
    show "InterruptProducer \<notin> set sched \<longrightarrow>
        \<not> p_caught (java_exec capacity n sched h allBatches)"
      using d by blast
    show "\<exists>put. allBatches = put @ p_rest (java_exec capacity n sched h allBatches)"
      by (rule c)
    show "i_flag (produceImages_run directory k) \<longrightarrow>
        i_pc (produceImages_run directory k) = ProducerDone \<and>
        i_enqueued (produceImages_run directory k) = delivered directory"
      by (rule p [THEN conjunct1])
    show "\<exists>rest. delivered directory = i_enqueued (produceImages_run directory k) @ rest"
      by (rule p [THEN conjunct2])
  qed
qed

text \<open>
  The witness: the CIFAR run of two batches under \<^const>\<open>demo_jsched\<close>, and a walk
  that delivers two images among four entries.
\<close>

theorem isDoneProducing_only_after_loop_witness:
  "isDoneProducing (java_exec 1 2 demo_jsched (\<lambda>a. [1]) [[20], [21]]) \<and>
   InterruptProducer \<notin> set demo_jsched \<and>
   p_pc (java_exec 1 2 demo_jsched (\<lambda>a. [1]) [[20], [21]]) = ProducerDone \<and>
   p_rest (java_exec 1 2 demo_jsched (\<lambda>a. [1]) [[20], [21]]) = [] \<and>
   i_flag (produceImages_run [Path False ''train'' ReadFails, Path True ''a.jpg'' (Decoded 1),
       Path True ''b.txt'' NoReader, Path True ''c.jpg'' (Decoded 3)] 6) \<and>
   i_enqueued (produceImages_run [Path False ''train'' ReadFails, Path True ''a.jpg'' (Decoded 1),
       Path True ''b.txt'' NoReader, Path True ''c.jpg'' (Decoded 3)] 6) = [1, 3]"
proof -
  let ?dir = "[Path False ''train'' ReadFails, Path True ''a.jpg'' (Decoded 1),
       Path True ''b.txt'' NoReader, Path True ''c.jpg'' (Decoded 3)]"
  have f: "isDoneProducing (java_exec 1 2 demo_jsched (\<lambda>a. [1]) [[20], [21]])"
    unfolding demo_java_run by simp
  have ni: "InterruptProducer \<notin> set demo_jsched" by (simp add: demo_jsched_def)
  have fl: "i_flag (produceImages_run ?dir 6)" unfolding demo_walk_full by simp
  have dl: "delivered ?dir = [1, 3]" by (simp add: delivered_def endsWith_def)
  note w = isDoneProducing_only_after_loop
    [where capacity = 1 and n = 2 and sched = demo_jsched and h = "\<lambda>a. [1]"
      and allBatches = "[[20], [21]]" and directory = ?dir and k = 6]
  have "p_pc (java_exec 1 2 demo_jsched (\<lambda>a. [1]) [[20], [21]]) = ProducerDone"
    using w [THEN conjunct1, THEN mp, OF f] .
  moreover have nc: "\<not> p_caught (java_exec 1 2 demo_jsched (\<lambda>a. [1]) [[20], [21]])"
    using w [THEN conjunct2, THEN conjunct2, THEN conjunct1, THEN mp, OF ni] .
  moreover have "p_rest (java_exec 1 2 demo_jsched (\<lambda>a. [1]) [[20], [21]]) = []"
    using w [THEN conjunct2, THEN conjunct1, THEN mp, OF conjI [OF f nc]] .
  moreover have "i_enqueued (produceImages_run ?dir 6) = delivered ?dir"
    using w [THEN conjunct2, THEN conjunct2, THEN conjunct2, THEN conjunct2, THEN conjunct1,
        THEN mp, OF fl, THEN conjunct2] .
  ultimately show ?thesis using f ni fl dl by simp
qed

text \<open>
  Claim C8 as the specification states it: the flag would never be set while an image
  has not been enqueued. In the Tiny ImageNet harness, when \<^verbatim>\<open>ImageIO.read\<close> finds no
  reader for \<^verbatim>\<open>b.jpg\<close> and the walk fails before it reaches \<^verbatim>\<open>c.jpg\<close>, the
  \<^verbatim>\<open>finally\<close> block sets the flag after one image has been enqueued: the images of
  \<^verbatim>\<open>b.jpg\<close> and \<^verbatim>\<open>c.jpg\<close> are not in the queue and never will be.
\<close>

theorem flag_set_in_finally_counterexample:
  "i_flag (produceImages_run [Path True ''a.jpg'' (Decoded 1), Path True ''b.jpg'' NoReader,
       WalkFails, Path True ''c.jpg'' (Decoded 3)] 4) \<and>
   i_enqueued (produceImages_run [Path True ''a.jpg'' (Decoded 1), Path True ''b.jpg'' NoReader,
       WalkFails, Path True ''c.jpg'' (Decoded 3)] 4) = [1] \<and>
   i_walk (produceImages_run [Path True ''a.jpg'' (Decoded 1), Path True ''b.jpg'' NoReader,
       WalkFails, Path True ''c.jpg'' (Decoded 3)] 4) = [Path True ''c.jpg'' (Decoded 3)] \<and>
   i_log (produceImages_run [Path True ''a.jpg'' (Decoded 1), Path True ''b.jpg'' NoReader,
       WalkFails, Path True ''c.jpg'' (Decoded 3)] 4)
     = [ErrorProcessingImage, ErrorWalkingDirectory]"
  unfolding demo_walk by simp

end
